theory Spec2Isabelle
  imports Complex_Main "HOL-Library.AList"
begin

section \<open>Python values and errors\<close>

text \<open>
  The exceptions that the modelled code can raise.  A function of the source that can
  raise returns \<open>py_error + 'a\<close>, with \<open>Inl\<close> for the exception.
\<close>

datatype py_error =
  AttributeError | KeyError | ValueError | TypeError | OSError | OverflowError

section \<open>app/lru.py\<close>

subsection \<open>Node objects and the heap\<close>

text \<open>
  A \<open>Node\<close> object has the fields \<open>key\<close>, \<open>value\<close>, \<open>prev\<close> and \<open>next\<close>.
  Python's \<open>None\<close> in a field is \<open>None\<close> here: the two sentinels are built by
  \<open>Node(None, None)\<close>, and \<open>prev\<close>/\<open>next\<close> start as \<open>None\<close>.
  Objects are referred to by address; the heap maps every address to the object stored
  there, and \<open>fresh\<close> of a cache is the first address that was never allocated.
\<close>

type_synonym addr = nat

record ('k, 'v) node =
  node_key :: "'k option"
  node_value :: "'v option"
  node_prev :: "addr option"
  node_next :: "addr option"

type_synonym ('k, 'v) heap = "addr \<Rightarrow> ('k, 'v) node"

definition Node :: "'k option \<Rightarrow> 'v option \<Rightarrow> ('k, 'v) node" where
  "Node k v = \<lparr>node_key = k, node_value = v, node_prev = None, node_next = None\<rparr>"

subsection \<open>DoublyLinkedList\<close>

text \<open>
  The list object holds the addresses of its two sentinels.  Each method is translated
  statement by statement; every heap read uses the heap as the preceding statements
  left it, so aliasing between the nodes involved is kept.
\<close>

record dll =
  dll_head :: addr
  dll_tail :: addr

definition add_to_front :: "dll \<Rightarrow> addr \<Rightarrow> ('k, 'v) heap \<Rightarrow> py_error + ('k, 'v) heap" where
  "add_to_front l n h =
     (let h1 = h(n := (h n)\<lparr>node_next := node_next (h (dll_head l))\<rparr>);
          h2 = h1(n := (h1 n)\<lparr>node_prev := Some (dll_head l)\<rparr>)
      in case node_next (h2 (dll_head l)) of
           None \<Rightarrow> Inl AttributeError
         | Some f \<Rightarrow>
             (let h3 = h2(f := (h2 f)\<lparr>node_prev := Some n\<rparr>);
                  h4 = h3(dll_head l := (h3 (dll_head l))\<lparr>node_next := Some n\<rparr>)
              in Inr h4))"

definition remove_node :: "addr \<Rightarrow> ('k, 'v) heap \<Rightarrow> py_error + ('k, 'v) heap" where
  "remove_node n h =
     (let prev_node = node_prev (h n);
          next_node = node_next (h n)
      in case prev_node of
           None \<Rightarrow> Inl AttributeError
         | Some p \<Rightarrow>
             (let h1 = h(p := (h p)\<lparr>node_next := next_node\<rparr>)
              in case next_node of
                   None \<Rightarrow> Inl AttributeError
                 | Some s \<Rightarrow> Inr (h1(s := (h1 s)\<lparr>node_prev := prev_node\<rparr>))))"

text \<open>
  \<open>remove_from_end\<close> returns the removed node, or \<open>None\<close> when the node before the
  tail sentinel is the head sentinel.  \<open>Node\<close> defines no \<open>__eq__\<close>, so \<open>==\<close>
  compares identities.  When \<open>tail.prev\<close> is \<open>None\<close> the call \<open>remove_node(None)\<close>
  raises on \<open>node.prev\<close>.
\<close>

definition remove_from_end :: "dll \<Rightarrow> ('k, 'v) heap \<Rightarrow> py_error + (addr option \<times> ('k, 'v) heap)" where
  "remove_from_end l h =
     (if node_prev (h (dll_tail l)) = Some (dll_head l) then Inr (None, h)
      else case node_prev (h (dll_tail l)) of
             None \<Rightarrow> Inl AttributeError
           | Some lru \<Rightarrow>
               (case remove_node lru h of
                  Inl e \<Rightarrow> Inl e
                | Inr h' \<Rightarrow> Inr (Some lru, h')))"

subsection \<open>LRUCache\<close>

text \<open>
  The dictionary \<open>self.cache\<close> is an association list in insertion order, as a Python
  \<open>dict\<close> is: \<open>d[k] = v\<close> replaces in place or appends, \<open>del d[k]\<close> removes, and
  \<open>len(d)\<close> is the number of entries.  The heap of node objects is carried in the
  cache's state together with the allocation pointer.
\<close>

record ('k, 'v) lru_cache =
  capacity :: int
  cache :: "('k \<times> addr) list"
  dll :: dll
  heap :: "('k, 'v) heap"
  fresh :: addr

definition alloc :: "('k, 'v) node \<Rightarrow> ('k, 'v) lru_cache \<Rightarrow> addr \<times> ('k, 'v) lru_cache" where
  "alloc nd c = (fresh c, c\<lparr>heap := (heap c)(fresh c := nd), fresh := Suc (fresh c)\<rparr>)"

text \<open>
  \<open>LRUCache(capacity)\<close>: the constructor allocates the two sentinels and links them.
  The heap before construction is \<open>h0\<close> with allocation pointer \<open>a0\<close>.
\<close>

definition LRUCache_init :: "int \<Rightarrow> ('k, 'v) heap \<Rightarrow> addr \<Rightarrow> ('k, 'v) lru_cache" where
  "LRUCache_init cap h0 a0 =
     (let hd_a = a0; tl_a = Suc a0;
          h1 = h0(hd_a := Node None None);
          h2 = h1(tl_a := Node None None);
          h3 = h2(hd_a := (h2 hd_a)\<lparr>node_next := Some tl_a\<rparr>);
          h4 = h3(tl_a := (h3 tl_a)\<lparr>node_prev := Some hd_a\<rparr>)
      in \<lparr>capacity = cap, cache = [], dll = \<lparr>dll_head = hd_a, dll_tail = tl_a\<rparr>,
          heap = h4, fresh = Suc (Suc a0)\<rparr>)"

definition empty_heap :: "('k, 'v) heap" where
  "empty_heap = (\<lambda>_. Node None None)"

definition LRUCache :: "int \<Rightarrow> ('k, 'v) lru_cache" where
  "LRUCache cap = LRUCache_init cap empty_heap 0"

definition LRUCache_get :: "'k \<Rightarrow> ('k, 'v) lru_cache \<Rightarrow> py_error + ('v option \<times> ('k, 'v) lru_cache)" where
  "LRUCache_get k c =
     (case map_of (cache c) k of
        None \<Rightarrow> Inr (None, c)
      | Some n \<Rightarrow>
          (case remove_node n (heap c) of
             Inl e \<Rightarrow> Inl e
           | Inr h1 \<Rightarrow>
               (case add_to_front (dll c) n h1 of
                  Inl e \<Rightarrow> Inl e
                | Inr h2 \<Rightarrow> Inr (node_value (h2 n), c\<lparr>heap := h2\<rparr>))))"

definition LRUCache_put :: "'k \<Rightarrow> 'v \<Rightarrow> ('k, 'v) lru_cache \<Rightarrow> py_error + ('k, 'v) lru_cache" where
  "LRUCache_put k v c =
     (case map_of (cache c) k of
        Some n \<Rightarrow>
          (let h0 = (heap c)(n := (heap c n)\<lparr>node_value := Some v\<rparr>)
           in case remove_node n h0 of
                Inl e \<Rightarrow> Inl e
              | Inr h1 \<Rightarrow>
                  (case add_to_front (dll c) n h1 of
                     Inl e \<Rightarrow> Inl e
                   | Inr h2 \<Rightarrow> Inr (c\<lparr>heap := h2\<rparr>)))
      | None \<Rightarrow>
          (case (if int (length (cache c)) \<ge> capacity c
                 then (case remove_from_end (dll c) (heap c) of
                         Inl e \<Rightarrow> Inl e
                       | Inr (None, h1) \<Rightarrow> Inr (c\<lparr>heap := h1\<rparr>)
                       | Inr (Some lru, h1) \<Rightarrow>
                           (case node_key (h1 lru) of
                              None \<Rightarrow> Inl KeyError
                            | Some lk \<Rightarrow>
                                (if lk \<in> fst ` set (cache c)
                                 then Inr (c\<lparr>heap := h1, cache := AList.delete lk (cache c)\<rparr>)
                                 else Inl KeyError)))
                 else Inr c) of
             Inl e \<Rightarrow> Inl e
           | Inr c1 \<Rightarrow>
               (let (new_node, c2) = alloc (Node (Some k) (Some v)) c1
                in case add_to_front (dll c2) new_node (heap c2) of
                     Inl e \<Rightarrow> Inl e
                   | Inr h3 \<Rightarrow> Inr (c2\<lparr>heap := h3, cache := AList.update k new_node (cache c2)\<rparr>))))"

definition LRUCache_delete :: "'k \<Rightarrow> ('k, 'v) lru_cache \<Rightarrow> py_error + (bool \<times> ('k, 'v) lru_cache)" where
  "LRUCache_delete k c =
     (case map_of (cache c) k of
        Some n \<Rightarrow>
          (case remove_node n (heap c) of
             Inl e \<Rightarrow> Inl e
           | Inr h1 \<Rightarrow> Inr (True, c\<lparr>heap := h1, cache := AList.delete k (cache c)\<rparr>))
      | None \<Rightarrow> Inr (False, c))"

section \<open>app/store.py\<close>

subsection \<open>Strings and the log file\<close>

text \<open>
  A \<open>str\<close> is a list of characters; a \<^typ>\<open>char\<close> stands for the code point of the same
  number, so the model covers the strings over the code points below 256.
  \<open>isspace\<close> lists the code points below 256 that Python's \<open>str.isspace\<close> accepts.
\<close>

definition isspace :: "char \<Rightarrow> bool" where
  "isspace c = (of_char c \<in> {9, 10, 11, 12, 13, 28, 29, 30, 31, 32, 133, 160 :: nat})"

definition strip :: "string \<Rightarrow> string" where
  "strip s = rev (dropWhile isspace (rev (dropWhile isspace s)))"

text \<open>\<open>s.split(sep)\<close> for a separator of one character: one more field than separators.\<close>

fun str_split :: "char \<Rightarrow> string \<Rightarrow> string list" where
  "str_split sep [] = [[]]"
| "str_split sep (c # cs) =
     (if c = sep then [] # str_split sep cs
      else (c # hd (str_split sep cs)) # tl (str_split sep cs))"

text \<open>
  Iterating over a file opened in text mode yields its lines, each with its line end.
  The default universal-newlines mode ends a line at \<open>\n\<close>, at \<open>\r\n\<close> and at a lone
  \<open>\r\<close>, and hands each of them over as \<open>\n\<close>; a last line without a line end is
  yielded as it is.  \<open>cur\<close> is the part of the current line read so far.
\<close>

fun file_lines :: "string \<Rightarrow> string \<Rightarrow> string list" where
  "file_lines cur [] = (if cur = [] then [] else [cur])"
| "file_lines cur (c # cs) =
     (if c = CHR 0x0A then (cur @ [CHR 0x0A]) # file_lines [] cs
      else if c = CHR 0x0D then
        (case cs of
           [] \<Rightarrow> [cur @ [CHR 0x0A]]
         | d # ds \<Rightarrow>
             (if d = CHR 0x0A then (cur @ [CHR 0x0A]) # file_lines [] ds
              else (cur @ [CHR 0x0A]) # file_lines [] cs))
      else file_lines (cur @ [c]) cs)"

subsection \<open>KeyValueStore\<close>

text \<open>
  The store owns its cache and the log file.  \<open>kv_log\<close> is the content of the file at
  \<open>self.log_file\<close>, \<open>None\<close> while the file does not exist.  Every public method runs
  under \<open>self.lock\<close>, so the methods are modelled as atomic steps.
\<close>

record kv_store =
  kv_cache :: "(string, string) lru_cache"
  kv_log :: "string option"

text \<open>
  \<open>_log\<close> formats \<open>f"{action}|{key}|{value}\n"\<close>, where the default \<open>value=None\<close>
  prints as \<open>None\<close>, and appends it to the file, creating the file when it is missing.
  \<open>disk_ok\<close> tells whether the operating system lets the file be opened for appending;
  when it does not, \<open>open\<close> raises \<open>OSError\<close> and the file is left as it was.
\<close>

definition log_line :: "string \<Rightarrow> string \<Rightarrow> string option \<Rightarrow> string" where
  "log_line action k v =
     action @ ''|'' @ k @ ''|'' @ (case v of None \<Rightarrow> ''None'' | Some s \<Rightarrow> s) @ [CHR 0x0A]"

definition KeyValueStore_log ::
  "bool \<Rightarrow> string \<Rightarrow> string \<Rightarrow> string option \<Rightarrow> string option \<Rightarrow> py_error + string option" where
  "KeyValueStore_log disk_ok action k v f =
     (if disk_ok
      then Inr (Some ((case f of None \<Rightarrow> [] | Some old \<Rightarrow> old) @ log_line action k v))
      else Inl OSError)"

text \<open>
  The body of the loop of \<open>_recover\<close>: unpacking \<open>line.strip().split("|")\<close> into three
  names raises \<open>ValueError\<close> unless there are exactly three fields.
\<close>

fun recover_lines ::
  "string list \<Rightarrow> (string, string) lru_cache \<Rightarrow> py_error + (string, string) lru_cache" where
  "recover_lines [] c = Inr c"
| "recover_lines (line # ls) c =
     (case str_split (CHR ''|'') (strip line) of
        [action, k, v] \<Rightarrow>
          (if action = ''SET'' then
             (case LRUCache_put k v c of
                Inl e \<Rightarrow> Inl e
              | Inr c' \<Rightarrow> recover_lines ls c')
           else if action = ''DEL'' then
             (case LRUCache_delete k c of
                Inl e \<Rightarrow> Inl e
              | Inr (_, c') \<Rightarrow> recover_lines ls c')
           else recover_lines ls c)
      | _ \<Rightarrow> Inl ValueError)"

definition KeyValueStore_recover ::
  "string option \<Rightarrow> (string, string) lru_cache \<Rightarrow> py_error + (string, string) lru_cache" where
  "KeyValueStore_recover f c =
     (case f of
        None \<Rightarrow> Inr c
      | Some content \<Rightarrow> recover_lines (file_lines [] content) c)"

text \<open>
  \<open>KeyValueStore(capacity, log_file)\<close>: a new cache, then recovery from the file found
  on disk.  An exception raised by \<open>_recover\<close> leaves the constructor, so no store exists.
\<close>

definition KeyValueStore_init :: "int \<Rightarrow> string option \<Rightarrow> py_error + kv_store" where
  "KeyValueStore_init cap f =
     (case KeyValueStore_recover f (LRUCache cap) of
        Inl e \<Rightarrow> Inl e
      | Inr c \<Rightarrow> Inr \<lparr>kv_cache = c, kv_log = f\<rparr>)"

text \<open>
  The public methods return what the caller sees (the exception, or the value) together
  with the store as the call leaves it.  \<open>set\<close> and \<open>delete\<close> change the cache first
  and write the log second, so an exception of \<open>_log\<close> finds the cache already changed.
  An exception raised inside the cache leaves the store's own fields as they were.
\<close>

definition KeyValueStore_set ::
  "bool \<Rightarrow> string \<Rightarrow> string \<Rightarrow> kv_store \<Rightarrow> (py_error + unit) \<times> kv_store" where
  "KeyValueStore_set disk_ok k v s =
     (case LRUCache_put k v (kv_cache s) of
        Inl e \<Rightarrow> (Inl e, s)
      | Inr c' \<Rightarrow>
          (case KeyValueStore_log disk_ok ''SET'' k (Some v) (kv_log s) of
             Inl e \<Rightarrow> (Inl e, s\<lparr>kv_cache := c'\<rparr>)
           | Inr f' \<Rightarrow> (Inr (), s\<lparr>kv_cache := c', kv_log := f'\<rparr>)))"

definition KeyValueStore_get ::
  "string \<Rightarrow> kv_store \<Rightarrow> (py_error + string option) \<times> kv_store" where
  "KeyValueStore_get k s =
     (case LRUCache_get k (kv_cache s) of
        Inl e \<Rightarrow> (Inl e, s)
      | Inr (r, c') \<Rightarrow> (Inr r, s\<lparr>kv_cache := c'\<rparr>))"

definition KeyValueStore_delete ::
  "bool \<Rightarrow> string \<Rightarrow> kv_store \<Rightarrow> (py_error + bool) \<times> kv_store" where
  "KeyValueStore_delete disk_ok k s =
     (case LRUCache_delete k (kv_cache s) of
        Inl e \<Rightarrow> (Inl e, s)
      | Inr (deleted, c') \<Rightarrow>
          (if deleted then
             (case KeyValueStore_log disk_ok ''DEL'' k None (kv_log s) of
                Inl e \<Rightarrow> (Inl e, s\<lparr>kv_cache := c'\<rparr>)
              | Inr f' \<Rightarrow> (Inr True, s\<lparr>kv_cache := c', kv_log := f'\<rparr>))
           else (Inr False, s\<lparr>kv_cache := c'\<rparr>)))"

subsection \<open>Runs of a store\<close>

text \<open>
  A caller's request, what it gets back, and a process that starts on the file found on
  disk and then serves a sequence of requests, one after the other.  An exception of a
  request goes to its caller; the store lives on and serves the next request.
\<close>

datatype kv_op = Set string string | Get string | Delete string

datatype kv_result = SetDone | GetValue "string option" | DeleteDone bool

definition kv_step :: "bool \<Rightarrow> kv_op \<Rightarrow> kv_store \<Rightarrow> (py_error + kv_result) \<times> kv_store" where
  "kv_step disk_ok op s =
     (case op of
        Set k v \<Rightarrow>
          (case KeyValueStore_set disk_ok k v s of
             (Inl e, s') \<Rightarrow> (Inl e, s')
           | (Inr _, s') \<Rightarrow> (Inr SetDone, s'))
      | Get k \<Rightarrow>
          (case KeyValueStore_get k s of
             (Inl e, s') \<Rightarrow> (Inl e, s')
           | (Inr r, s') \<Rightarrow> (Inr (GetValue r), s'))
      | Delete k \<Rightarrow>
          (case KeyValueStore_delete disk_ok k s of
             (Inl e, s') \<Rightarrow> (Inl e, s')
           | (Inr b, s') \<Rightarrow> (Inr (DeleteDone b), s')))"

fun kv_run :: "kv_op list \<Rightarrow> kv_store \<Rightarrow> (py_error + kv_result) list \<times> kv_store" where
  "kv_run [] s = ([], s)"
| "kv_run (op # ops) s =
     (case kv_step True op s of
        (r, s') \<Rightarrow> (case kv_run ops s' of (rs, s'') \<Rightarrow> (r # rs, s'')))"

definition kv_session ::
  "int \<Rightarrow> string option \<Rightarrow> kv_op list \<Rightarrow> py_error + ((py_error + kv_result) list \<times> kv_store)" where
  "kv_session cap f ops =
     (case KeyValueStore_init cap f of
        Inl e \<Rightarrow> Inl e
      | Inr s \<Rightarrow> Inr (kv_run ops s))"

text \<open>
  The logical content of a cache: its keys in dictionary order, each with the value
  field of the node the dictionary holds for it.
\<close>

definition lru_items :: "('k, 'v) lru_cache \<Rightarrow> ('k \<times> 'v option) list" where
  "lru_items c = map (\<lambda>(k, n). (k, node_value (heap c n))) (cache c)"

section \<open>app/simple_store.py\<close>

subsection \<open>Floating-point numbers\<close>

text \<open>
  A Python \<open>float\<close> is an IEEE double.  Its arithmetic is not modelled: the operations
  that the store applies to floats are the fields of a record \<open>F\<close>, which every function
  of this section takes, and the theorems about the store hold for every \<open>F\<close>, hence for
  the operations of the doubles, with their rounding, infinities and NaN.

  \<^item> \<open>f_sub F x y\<close> is \<open>x - y\<close> for two floats.
  \<^item> \<open>f_of_int F n\<close> is the float that the integer operand \<open>n\<close> of a mixed
    \<open>int - float\<close> or \<open>float - int\<close> is converted to; it is \<open>None\<close> when the integer
    is too large, and the operation then raises \<open>OverflowError\<close>.
  \<^item> \<open>f_le_zero F x\<close> is \<open>x <= 0\<close>.
  \<^item> \<open>f_truthy F x\<close> is \<open>bool(x)\<close>, the test made by \<open>if x:\<close>.
  \<^item> \<open>f_int F x\<close> is \<open>int(x)\<close>, which truncates towards zero and raises
    \<open>OverflowError\<close> for an infinity and \<open>ValueError\<close> for NaN.
  \<^item> \<open>f_add F x y\<close>, \<open>f_add_int F x n\<close> and \<open>f_le F x y\<close> are \<open>x + y\<close> for two
    floats, \<open>x + n\<close> for a float and an integer, and \<open>x <= y\<close>; only the cache uses
    them.
\<close>

record 'f py_float =
  f_sub :: "'f \<Rightarrow> 'f \<Rightarrow> 'f"
  f_of_int :: "int \<Rightarrow> 'f option"
  f_le_zero :: "'f \<Rightarrow> bool"
  f_truthy :: "'f \<Rightarrow> bool"
  f_int :: "'f \<Rightarrow> py_error + int"
  f_add :: "'f \<Rightarrow> 'f \<Rightarrow> 'f"
  f_add_int :: "'f \<Rightarrow> int \<Rightarrow> 'f"
  f_le :: "'f \<Rightarrow> 'f \<Rightarrow> bool"

text \<open>
  The same operations on the real numbers, for evaluating the store at concrete
  inputs.  They give what the doubles give whenever the operands and the exact result
  are doubles, as with the integers and halves of small size used below;
  \<open>py_int\<close> truncates towards zero.
\<close>

definition py_int :: "real \<Rightarrow> int" where
  "py_int x = (if 0 \<le> x then \<lfloor>x\<rfloor> else \<lceil>x\<rceil>)"

definition exact_float :: "real py_float" where
  "exact_float =
     \<lparr>f_sub = (\<lambda>x y. x - y),
      f_of_int = (\<lambda>n. Some (real_of_int n)),
      f_le_zero = (\<lambda>x. x \<le> 0),
      f_truthy = (\<lambda>x. x \<noteq> 0),
      f_int = (\<lambda>x. Inr (py_int x)),
      f_add = (\<lambda>x y. x + y),
      f_add_int = (\<lambda>x n. x + real_of_int n),
      f_le = (\<lambda>x y. x \<le> y)\<rparr>"

subsection \<open>JSON values, log lines and the clock\<close>

text \<open>
  The values that \<open>json.loads\<close> returns and \<open>json.dumps\<close> accepts, over the floats
  \<open>'f\<close>.  A Python \<open>int\<close> is unbounded; an object is the list of its items.
\<close>

datatype 'f json =
    JNull
  | JBool bool
  | JInt int
  | JFloat 'f
  | JStr string
  | JArr "'f json list"
  | JObj "(string \<times> 'f json) list"

text \<open>
  A line of the log file as \<open>_recover\<close> meets it.  \<open>json.loads\<close> and \<open>json.dumps\<close>
  are library functions and are not modelled: a line is \<open>Blank\<close> when nothing is left
  after \<open>strip()\<close>, \<open>Undecodable\<close> when \<open>json.loads\<close> raises \<open>JSONDecodeError\<close> on it,
  and \<open>Decoded j\<close> when \<open>json.loads\<close> returns \<open>j\<close>.  The line that
  \<open>json.dumps(entry) + "\n"\<close> writes is \<open>Decoded entry\<close>.
\<close>

datatype 'f wal_line = Blank | Undecodable | Decoded "'f json"

text \<open>
  The dictionary \<open>log_entry\<close> that \<open>_log_operation\<close> and \<open>compact_log\<close> build.
\<close>

definition log_entry :: "'f json \<Rightarrow> string \<Rightarrow> 'f json \<Rightarrow> 'f json \<Rightarrow> 'f json \<Rightarrow> 'f json" where
  "log_entry timestamp action k v ttl =
     JObj [(''timestamp'', timestamp), (''action'', JStr action), (''key'', k),
           (''value'', v), (''ttl'', ttl)]"

text \<open>Python's truth value of a JSON value, as \<open>if ttl:\<close> tests it.\<close>

fun truthy :: "'f py_float \<Rightarrow> 'f json \<Rightarrow> bool" where
  "truthy F JNull = False"
| "truthy F (JBool b) = b"
| "truthy F (JInt n) = (n \<noteq> 0)"
| "truthy F (JFloat x) = f_truthy F x"
| "truthy F (JStr s) = (s \<noteq> [])"
| "truthy F (JArr xs) = (xs \<noteq> [])"
| "truthy F (JObj kvs) = (kvs \<noteq> [])"

text \<open>
  The float that a JSON value contributes as an operand of \<open>-\<close> when the other
  operand is a float.  An \<open>int\<close> is converted, which raises \<open>OverflowError\<close> when it is
  too large; \<open>bool\<close> is a subclass of \<open>int\<close>.  Any other operand makes the subtraction
  raise \<open>TypeError\<close>.
\<close>

fun as_number :: "'f py_float \<Rightarrow> 'f json \<Rightarrow> py_error + 'f" where
  "as_number F (JInt n) = (case f_of_int F n of None \<Rightarrow> Inl OverflowError | Some x \<Rightarrow> Inr x)"
| "as_number F (JFloat x) = Inr x"
| "as_number F (JBool b) =
     (case f_of_int F (if b then 1 else 0) of None \<Rightarrow> Inl OverflowError | Some x \<Rightarrow> Inr x)"
| "as_number F _ = Inl TypeError"

text \<open>
  \<open>entry[name]\<close>: a missing key raises \<open>KeyError\<close>; subscripting anything but an
  object with a string raises \<open>TypeError\<close>.  \<open>entry.get(name)\<close> is called only after
  \<open>entry["action"]\<close> and \<open>entry["key"]\<close> succeeded, so on an object.
\<close>

fun subscript :: "'f json \<Rightarrow> string \<Rightarrow> py_error + 'f json" where
  "subscript (JObj kvs) name = (case map_of kvs name of None \<Rightarrow> Inl KeyError | Some v \<Rightarrow> Inr v)"
| "subscript _ name = Inl TypeError"

fun dict_get :: "'f json \<Rightarrow> string \<Rightarrow> 'f json" where
  "dict_get (JObj kvs) name = (case map_of kvs name of None \<Rightarrow> JNull | Some v \<Rightarrow> v)"
| "dict_get _ name = JNull"

subsection \<open>AsyncLRUCache\<close>

text \<open>
  Modelled from the spec: the class \<open>AsyncLRUCache\<close> of \<open>app/async_lru.py\<close>, which
  \<open>simple_store.py\<close> imports and which is not among the sources.  The cache is the
  spec's ordered sequence of entries \<open>{key, value, expires_at}\<close>, most recently used
  first, with a capacity.
\<close>

record ('k, 'v, 'f) async_lru_cache =
  a_capacity :: int
  a_entries :: "('k \<times> 'v \<times> 'f option) list"

text \<open>
  Modelled from the spec: the constructor, an empty cache.
\<close>

definition AsyncLRUCache :: "int \<Rightarrow> ('k, 'v, 'f) async_lru_cache" where
  "AsyncLRUCache cap = \<lparr>a_capacity = cap, a_entries = []\<rparr>"

text \<open>
  Modelled from the spec: the \<open>ttl\<close> argument of \<open>put\<close>, which is absent, the integer
  that \<open>set\<close> passes on, or the float that \<open>_recover\<close> computes; and the expiry, "an
  absolute expiry timestamp computed at insertion time (\<open>now + ttl\<close>)".
\<close>

datatype 'f ttl = NoTtl | IntTtl int | FloatTtl 'f

fun expiry :: "'f py_float \<Rightarrow> 'f \<Rightarrow> 'f ttl \<Rightarrow> 'f option" where
  "expiry F now NoTtl = None"
| "expiry F now (IntTtl n) = Some (f_add_int F now n)"
| "expiry F now (FloatTtl r) = Some (f_add F now r)"

text \<open>
  Modelled from the spec: \<open>put(key, value, ttl=optional)\<close>.  "If key exists: value and
  expiry are replaced, entry moves to front.  Else: if \<open>size == capacity\<close>, the tail
  entry is evicted; a new entry is created at the front."
\<close>

definition AsyncLRUCache_put ::
  "'f py_float \<Rightarrow> 'k \<Rightarrow> 'v \<Rightarrow> 'f ttl \<Rightarrow> 'f \<Rightarrow> ('k, 'v, 'f) async_lru_cache
     \<Rightarrow> ('k, 'v, 'f) async_lru_cache" where
  "AsyncLRUCache_put F k v ttl now c =
     (let expires_at = expiry F now ttl
      in if k \<in> fst ` set (a_entries c)
         then c\<lparr>a_entries := (k, v, expires_at) # filter (\<lambda>e. fst e \<noteq> k) (a_entries c)\<rparr>
         else if int (length (a_entries c)) = a_capacity c
         then c\<lparr>a_entries := (k, v, expires_at) # butlast (a_entries c)\<rparr>
         else c\<lparr>a_entries := (k, v, expires_at) # a_entries c\<rparr>)"

text \<open>
  Modelled from the spec: an entry with an expiry is expired once the expiry is not
  after the current time.
\<close>

definition expired :: "'f py_float \<Rightarrow> 'f \<Rightarrow> 'f option \<Rightarrow> bool" where
  "expired F now expires_at = (case expires_at of None \<Rightarrow> False | Some x \<Rightarrow> f_le F x now)"

text \<open>
  Modelled from the spec: \<open>get(key)\<close>.  "On hit: entry moves to front; on TTL-expired
  entry: treated as absent, entry is removed as a side effect."
\<close>

definition AsyncLRUCache_get ::
  "'f py_float \<Rightarrow> 'k \<Rightarrow> 'f \<Rightarrow> ('k, 'v, 'f) async_lru_cache
     \<Rightarrow> 'v option \<times> ('k, 'v, 'f) async_lru_cache" where
  "AsyncLRUCache_get F k now c =
     (case map_of (a_entries c) k of
        None \<Rightarrow> (None, c)
      | Some (v, expires_at) \<Rightarrow>
          (if expired F now expires_at
           then (None, c\<lparr>a_entries := filter (\<lambda>e. fst e \<noteq> k) (a_entries c)\<rparr>)
           else (Some v, c\<lparr>a_entries := (k, v, expires_at) # filter (\<lambda>e. fst e \<noteq> k) (a_entries c)\<rparr>)))"

text \<open>
  Modelled from the spec: \<open>delete(key)\<close>, "true if a key was present and removed".
\<close>

definition AsyncLRUCache_delete ::
  "'k \<Rightarrow> ('k, 'v, 'f) async_lru_cache \<Rightarrow> bool \<times> ('k, 'v, 'f) async_lru_cache" where
  "AsyncLRUCache_delete k c =
     (k \<in> fst ` set (a_entries c), c\<lparr>a_entries := filter (\<lambda>e. fst e \<noteq> k) (a_entries c)\<rparr>)"

text \<open>
  Modelled from the spec: \<open>size()\<close>, the number of entries.
\<close>

definition AsyncLRUCache_size :: "('k, 'v, 'f) async_lru_cache \<Rightarrow> nat" where
  "AsyncLRUCache_size c = length (a_entries c)"

text \<open>
  Modelled from the spec: \<open>allKeys()\<close>, a snapshot of the keys with no recency side
  effect.  The spec gives a set; the model lists the keys most recently used first.
\<close>

definition AsyncLRUCache_get_all_keys :: "('k, 'v, 'f) async_lru_cache \<Rightarrow> 'k list" where
  "AsyncLRUCache_get_all_keys c = map fst (a_entries c)"

text \<open>
  Modelled from the spec: \<open>getRaw(key)\<close>, "\<open>(value, expiresAt)\<close> or absent (inspection
  without recency update)".
\<close>

definition AsyncLRUCache_get_raw ::
  "'k \<Rightarrow> ('k, 'v, 'f) async_lru_cache \<Rightarrow> ('v \<times> 'f option) option" where
  "AsyncLRUCache_get_raw k c = map_of (a_entries c) k"

text \<open>
  Modelled from the spec: the cache's index is a hash map, so an array or an object read
  from the log cannot be a key; \<open>put\<close> and \<open>delete\<close> raise \<open>TypeError\<close> for one.
\<close>

fun hashable :: "'f json \<Rightarrow> bool" where
  "hashable (JArr xs) = False"
| "hashable (JObj kvs) = False"
| "hashable _ = True"

subsection \<open>SimpleAsyncKeyValueStore\<close>

text \<open>
  The store: its cache, the log file (\<open>None\<close> while it does not exist) as the list of
  its lines, the backups that compaction leaves behind, each under the suffix of its
  name, and the statistics that the methods modelled here update.  \<open>ss_ticks\<close> counts the
  clock readings made so far: the \<open>n\<close>-th reading of the clock returns \<open>clk n\<close>, for
  a function \<open>clk\<close> that every method takes.  Every public method runs under
  \<open>self.lock\<close>, so the methods are modelled as atomic steps.
\<close>

record 'f simple_store =
  ss_cache :: "('f json, 'f json, 'f) async_lru_cache"
  ss_log :: "'f wal_line list option"
  ss_backups :: "(int \<times> 'f wal_line list) list"
  ss_cache_hits :: nat
  ss_cache_misses :: nat
  ss_log_size :: nat
  ss_last_compaction :: "'f option"
  ss_ticks :: nat

definition time_time :: "(nat \<Rightarrow> 'f) \<Rightarrow> 'f simple_store \<Rightarrow> 'f \<times> 'f simple_store" where
  "time_time clk s = (clk (ss_ticks s), s\<lparr>ss_ticks := Suc (ss_ticks s)\<rparr>)"

text \<open>
  The calls \<open>self.cache.put\<close>, \<open>self.cache.get\<close> and \<open>self.cache.delete\<close>.  \<open>put\<close> and
  \<open>get\<close> read the clock once each.
\<close>

definition cache_put ::
  "'f py_float \<Rightarrow> (nat \<Rightarrow> 'f) \<Rightarrow> 'f json \<Rightarrow> 'f json \<Rightarrow> 'f ttl \<Rightarrow> 'f simple_store
     \<Rightarrow> py_error + 'f simple_store" where
  "cache_put F clk k v ttl s =
     (if hashable k
      then (case time_time clk s of
              (now, s1) \<Rightarrow> Inr (s1\<lparr>ss_cache := AsyncLRUCache_put F k v ttl now (ss_cache s1)\<rparr>))
      else Inl TypeError)"

definition cache_delete :: "'f json \<Rightarrow> 'f simple_store \<Rightarrow> py_error + (bool \<times> 'f simple_store)" where
  "cache_delete k s =
     (if hashable k
      then (case AsyncLRUCache_delete k (ss_cache s) of
              (deleted, c) \<Rightarrow> Inr (deleted, s\<lparr>ss_cache := c\<rparr>))
      else Inl TypeError)"

definition cache_get ::
  "'f py_float \<Rightarrow> (nat \<Rightarrow> 'f) \<Rightarrow> 'f json \<Rightarrow> 'f simple_store \<Rightarrow> 'f json option \<times> 'f simple_store" where
  "cache_get F clk k s =
     (case time_time clk s of
        (now, s1) \<Rightarrow>
          (case AsyncLRUCache_get F k now (ss_cache s1) of
             (r, c) \<Rightarrow> (r, s1\<lparr>ss_cache := c\<rparr>)))"

text \<open>
  \<open>_log_operation\<close> reads the clock, then appends the entry to the file, creating the
  file when it is missing, and counts the line.  \<open>disk_ok\<close> tells whether the file can
  be opened for appending; when it cannot, \<open>open\<close> raises \<open>OSError\<close> after the clock
  was read, and file and counter are as before.
\<close>

definition SimpleStore_log_operation ::
  "(nat \<Rightarrow> 'f) \<Rightarrow> bool \<Rightarrow> string \<Rightarrow> 'f json \<Rightarrow> 'f json \<Rightarrow> 'f json \<Rightarrow> 'f simple_store
     \<Rightarrow> (py_error + unit) \<times> 'f simple_store" where
  "SimpleStore_log_operation clk disk_ok action k v ttl s =
     (case time_time clk s of
        (timestamp, s1) \<Rightarrow>
          (if disk_ok
           then (Inr (),
                 s1\<lparr>ss_log := Some ((case ss_log s1 of None \<Rightarrow> [] | Some old \<Rightarrow> old)
                                     @ [Decoded (log_entry (JFloat timestamp) action k v ttl)]),
                    ss_log_size := Suc (ss_log_size s1)\<rparr>)
           else (Inl OSError, s1)))"

text \<open>
  The body of the loop of \<open>_recover\<close> for one line.  The result is the exception that
  leaves \<open>_recover\<close>, or the store together with the lines for which a warning was
  printed so far.  \<open>KeyError\<close> and \<open>JSONDecodeError\<close> are caught, the warning is
  printed and the loop goes on; \<open>TypeError\<close> and \<open>OverflowError\<close> are not caught.  In
  \<open>time.time() - entry["timestamp"]\<close> the clock is read before the subscript is
  evaluated, and the operand is converted after that; in \<open>ttl - elapsed\<close> the operand
  \<open>ttl\<close> is converted.  Both differences and the test \<open>remaining_ttl <= 0\<close> are the
  floats' own.
\<close>

definition recover_line ::
  "'f py_float \<Rightarrow> (nat \<Rightarrow> 'f) \<Rightarrow> 'f wal_line \<Rightarrow> 'f simple_store \<times> 'f wal_line list
     \<Rightarrow> py_error + ('f simple_store \<times> 'f wal_line list)" where
  "recover_line F clk line sw =
     (case sw of (s, warned) \<Rightarrow>
        (case line of
           Blank \<Rightarrow> Inr (s, warned)
         | Undecodable \<Rightarrow> Inr (s, warned @ [line])
         | Decoded entry \<Rightarrow>
             (case subscript entry ''action'' of
                Inl e \<Rightarrow> (if e = KeyError then Inr (s, warned @ [line]) else Inl e)
              | Inr action \<Rightarrow>
                  (case subscript entry ''key'' of
                     Inl e \<Rightarrow> (if e = KeyError then Inr (s, warned @ [line]) else Inl e)
                   | Inr k \<Rightarrow>
                       (let v = dict_get entry ''value'';
                            ttl = dict_get entry ''ttl''
                        in if action = JStr ''SET'' then
                             (if truthy F ttl then
                                (case time_time clk s of
                                   (now, s1) \<Rightarrow>
                                     (case subscript entry ''timestamp'' of
                                        Inl e \<Rightarrow>
                                          (if e = KeyError then Inr (s1, warned @ [line]) else Inl e)
                                      | Inr ts \<Rightarrow>
                                          (case as_number F ts of
                                             Inl e \<Rightarrow> Inl e
                                           | Inr tsn \<Rightarrow>
                                               (let elapsed = f_sub F now tsn
                                                in case as_number F ttl of
                                                     Inl e \<Rightarrow> Inl e
                                                   | Inr ttln \<Rightarrow>
                                                       (let remaining_ttl = f_sub F ttln elapsed
                                                        in if f_le_zero F remaining_ttl
                                                           then Inr (s1, warned)
                                                           else (case cache_put F clk k v
                                                                        (FloatTtl remaining_ttl) s1 of
                                                                   Inl e \<Rightarrow> Inl e
                                                                 | Inr s2 \<Rightarrow> Inr (s2, warned)))))))
                              else (case cache_put F clk k v NoTtl s of
                                      Inl e \<Rightarrow> Inl e
                                    | Inr s1 \<Rightarrow> Inr (s1, warned)))
                           else if action = JStr ''DEL'' then
                             (case cache_delete k s of
                                Inl e \<Rightarrow> Inl e
                              | Inr (_, s1) \<Rightarrow> Inr (s1, warned))
                           else Inr (s, warned))))))"

fun recover_wal ::
  "'f py_float \<Rightarrow> (nat \<Rightarrow> 'f) \<Rightarrow> 'f wal_line list \<Rightarrow> 'f simple_store \<times> 'f wal_line list
     \<Rightarrow> py_error + ('f simple_store \<times> 'f wal_line list)" where
  "recover_wal F clk [] sw = Inr sw"
| "recover_wal F clk (line # ls) sw =
     (case recover_line F clk line sw of
        Inl e \<Rightarrow> Inl e
      | Inr sw' \<Rightarrow> recover_wal F clk ls sw')"

definition SimpleStore_recover ::
  "'f py_float \<Rightarrow> (nat \<Rightarrow> 'f) \<Rightarrow> 'f simple_store
     \<Rightarrow> py_error + ('f simple_store \<times> 'f wal_line list)" where
  "SimpleStore_recover F clk s =
     (case ss_log s of
        None \<Rightarrow> Inr (s, [])
      | Some ls \<Rightarrow> recover_wal F clk ls (s, []))"

text \<open>
  \<open>SimpleAsyncKeyValueStore(capacity, log_file)\<close> followed by \<open>initialize()\<close>, on the
  log file \<open>f\<close> found on disk, with \<open>t0\<close> clock readings made before.
\<close>

definition SimpleStore_new :: "int \<Rightarrow> 'f wal_line list option \<Rightarrow> nat \<Rightarrow> 'f simple_store" where
  "SimpleStore_new cap f t0 =
     \<lparr>ss_cache = AsyncLRUCache cap, ss_log = f, ss_backups = [],
      ss_cache_hits = 0, ss_cache_misses = 0, ss_log_size = 0,
      ss_last_compaction = None, ss_ticks = t0\<rparr>"

definition SimpleStore_initialize ::
  "'f py_float \<Rightarrow> (nat \<Rightarrow> 'f) \<Rightarrow> int \<Rightarrow> 'f wal_line list option \<Rightarrow> nat
     \<Rightarrow> py_error + ('f simple_store \<times> 'f wal_line list)" where
  "SimpleStore_initialize F clk cap f t0 = SimpleStore_recover F clk (SimpleStore_new cap f t0)"

text \<open>
  \<open>set\<close>, \<open>get\<close> and \<open>delete\<close>.  As in \<open>KeyValueStore\<close> the cache is changed first and
  the log is written second.  The type hints give \<open>key: str\<close>, \<open>value: str\<close> and
  \<open>ttl: Optional[int]\<close>.
\<close>

definition SimpleStore_set ::
  "'f py_float \<Rightarrow> (nat \<Rightarrow> 'f) \<Rightarrow> bool \<Rightarrow> string \<Rightarrow> string \<Rightarrow> int option \<Rightarrow> 'f simple_store
     \<Rightarrow> (py_error + unit) \<times> 'f simple_store" where
  "SimpleStore_set F clk disk_ok k v ttl s =
     (case cache_put F clk (JStr k) (JStr v) (case ttl of None \<Rightarrow> NoTtl | Some n \<Rightarrow> IntTtl n) s of
        Inl e \<Rightarrow> (Inl e, s)
      | Inr s1 \<Rightarrow>
          SimpleStore_log_operation clk disk_ok ''SET'' (JStr k) (JStr v)
            (case ttl of None \<Rightarrow> JNull | Some n \<Rightarrow> JInt n) s1)"

text \<open>
  A stored \<open>None\<close> (a record without a value, recovered from the log) comes back from
  \<open>get\<close> as \<open>None\<close>, like an absent key, and counts as a miss.
\<close>

definition SimpleStore_get ::
  "'f py_float \<Rightarrow> (nat \<Rightarrow> 'f) \<Rightarrow> string \<Rightarrow> 'f simple_store \<Rightarrow> 'f json option \<times> 'f simple_store" where
  "SimpleStore_get F clk k s =
     (case cache_get F clk (JStr k) s of
        (v, s1) \<Rightarrow>
          (if v \<noteq> None \<and> v \<noteq> Some JNull
           then (v, s1\<lparr>ss_cache_hits := Suc (ss_cache_hits s1)\<rparr>)
           else (None, s1\<lparr>ss_cache_misses := Suc (ss_cache_misses s1)\<rparr>)))"

definition SimpleStore_delete ::
  "(nat \<Rightarrow> 'f) \<Rightarrow> bool \<Rightarrow> string \<Rightarrow> 'f simple_store \<Rightarrow> (py_error + bool) \<times> 'f simple_store" where
  "SimpleStore_delete clk disk_ok k s =
     (case cache_delete (JStr k) s of
        Inl e \<Rightarrow> (Inl e, s)
      | Inr (deleted, s1) \<Rightarrow>
          (if deleted then
             (case SimpleStore_log_operation clk disk_ok ''DEL'' (JStr k) JNull JNull s1 of
                (Inl e, s2) \<Rightarrow> (Inl e, s2)
              | (Inr _, s2) \<Rightarrow> (Inr True, s2))
           else (Inr False, s1)))"

text \<open>
  \<open>compact_log\<close>.  The snapshot \<open>current_state\<close> holds, in the order of
  \<open>get_all_keys()\<close>, every key for which \<open>get_raw\<close> returns an entry.  The loop writes
  one \<open>SET\<close> entry per item of the snapshot, except that an item with a truthy
  \<open>expires_at\<close> is skipped when \<open>max(0, int(expires_at - time.time()))\<close> is \<open><= 0\<close>.
  \<open>compacted\<close> is that loop: it returns the lines written to the temporary file, or the
  exception that \<open>int\<close> raises; the difference is the floats' own.
\<close>

definition current_state :: "('k, 'v, 'f) async_lru_cache \<Rightarrow> ('k \<times> 'v \<times> 'f option) list" where
  "current_state c =
     concat (map (\<lambda>k. case AsyncLRUCache_get_raw k c of
                          None \<Rightarrow> []
                        | Some (v, expires_at) \<Rightarrow> [(k, v, expires_at)])
                 (AsyncLRUCache_get_all_keys c))"

fun compacted ::
  "'f py_float \<Rightarrow> (nat \<Rightarrow> 'f) \<Rightarrow> ('f json \<times> 'f json \<times> 'f option) list \<Rightarrow> 'f simple_store
     \<Rightarrow> py_error + ('f wal_line list \<times> 'f simple_store)" where
  "compacted F clk [] s = Inr ([], s)"
| "compacted F clk ((k, v, expires_at) # items) s =
     (case (case expires_at of None \<Rightarrow> None | Some x \<Rightarrow> if f_truthy F x then Some x else None) of
        Some x \<Rightarrow>
          (case time_time clk s of
             (now, s1) \<Rightarrow>
               (case f_int F (f_sub F x now) of
                  Inl e \<Rightarrow> Inl e
                | Inr whole \<Rightarrow>
                    (let ttl = max 0 whole
                     in if ttl \<le> 0 then compacted F clk items s1
                        else (case time_time clk s1 of
                                (timestamp, s2) \<Rightarrow>
                                  (case compacted F clk items s2 of
                                     Inl e \<Rightarrow> Inl e
                                   | Inr (ls, s3) \<Rightarrow>
                                       Inr (Decoded (log_entry (JFloat timestamp) ''SET'' k v (JInt ttl))
                                              # ls, s3))))))
      | None \<Rightarrow>
          (case time_time clk s of
             (timestamp, s1) \<Rightarrow>
               (case compacted F clk items s1 of
                  Inl e \<Rightarrow> Inl e
                | Inr (ls, s2) \<Rightarrow>
                    Inr (Decoded (log_entry (JFloat timestamp) ''SET'' k v JNull) # ls, s2))))"

text \<open>
  After the temporary file is written, the old log becomes a backup named after
  \<open>int(time.time())\<close>, the temporary file becomes the log, \<open>last_compaction\<close> is set from
  the clock and \<open>log_size\<close> is the number of lines of the new log.  An exception of
  \<open>int\<close> leaves \<open>compact_log\<close> before any file is renamed.  Failures of the file system
  during compaction are not modelled.
\<close>

definition SimpleStore_compact_log ::
  "'f py_float \<Rightarrow> (nat \<Rightarrow> 'f) \<Rightarrow> 'f simple_store \<Rightarrow> py_error + 'f simple_store" where
  "SimpleStore_compact_log F clk s =
     (case ss_log s of
        None \<Rightarrow> Inr s
      | Some old \<Rightarrow>
          (case compacted F clk (current_state (ss_cache s)) s of
             Inl e \<Rightarrow> Inl e
           | Inr (ls, s1) \<Rightarrow>
               (case time_time clk s1 of
                  (tb, s2) \<Rightarrow>
                    (case f_int F tb of
                       Inl e \<Rightarrow> Inl e
                     | Inr suffix \<Rightarrow>
                         (case time_time clk s2 of
                            (tc, s3) \<Rightarrow>
                              Inr (s3\<lparr>ss_backups := ss_backups s3 @ [(suffix, old)],
                                      ss_log := Some ls,
                                      ss_last_compaction := Some tc,
                                      ss_log_size := length ls\<rparr>))))))"

section \<open>Sequences of cache operations and the shape of the list\<close>

text \<open>
  A sequence of calls on one cache; the run stops at the first exception.
\<close>

datatype ('k, 'v) lru_op = Put 'k 'v | Lookup 'k | Remove 'k

fun lru_step :: "('k, 'v) lru_op \<Rightarrow> ('k, 'v) lru_cache \<Rightarrow> py_error + ('k, 'v) lru_cache" where
  "lru_step (Put k v) c = LRUCache_put k v c"
| "lru_step (Lookup k) c = (case LRUCache_get k c of Inl e \<Rightarrow> Inl e | Inr (_, c') \<Rightarrow> Inr c')"
| "lru_step (Remove k) c = (case LRUCache_delete k c of Inl e \<Rightarrow> Inl e | Inr (_, c') \<Rightarrow> Inr c')"

fun lru_run :: "('k, 'v) lru_op list \<Rightarrow> ('k, 'v) lru_cache \<Rightarrow> py_error + ('k, 'v) lru_cache" where
  "lru_run [] c = Inr c"
| "lru_run (op # ops) c = (case lru_step op c of Inl e \<Rightarrow> Inl e | Inr c' \<Rightarrow> lru_run ops c')"

text \<open>
  The nodes of the list are read off the heap by following \<open>next\<close> from the head
  sentinel until the tail sentinel is reached, and by following \<open>prev\<close> from the tail
  sentinel until the head sentinel is reached.  The walk gives up (\<open>None\<close>) on a
  \<open>None\<close> link or after \<open>fuel\<close> steps; a cache has \<open>fresh\<close> objects at most, so
  that many steps suffice for a list without a cycle.
\<close>

fun walk_next :: "nat \<Rightarrow> ('k, 'v) heap \<Rightarrow> addr \<Rightarrow> addr \<Rightarrow> addr list option" where
  "walk_next 0 h p q = None"
| "walk_next (Suc fuel) h p q =
     (case node_next (h p) of
        None \<Rightarrow> None
      | Some x \<Rightarrow> if x = q then Some [] else map_option ((#) x) (walk_next fuel h x q))"

fun walk_prev :: "nat \<Rightarrow> ('k, 'v) heap \<Rightarrow> addr \<Rightarrow> addr \<Rightarrow> addr list option" where
  "walk_prev 0 h p q = None"
| "walk_prev (Suc fuel) h p q =
     (case node_prev (h q) of
        None \<Rightarrow> None
      | Some x \<Rightarrow> if x = p then Some [] else map_option (\<lambda>xs. xs @ [x]) (walk_prev fuel h p x))"

definition list_nodes :: "('k, 'v) lru_cache \<Rightarrow> addr list option" where
  "list_nodes c = walk_next (fresh c) (heap c) (dll_head (dll c)) (dll_tail (dll c))"

definition list_nodes_backwards :: "('k, 'v) lru_cache \<Rightarrow> addr list option" where
  "list_nodes_backwards c = walk_prev (fresh c) (heap c) (dll_head (dll c)) (dll_tail (dll c))"

text \<open>
  \<open>links h L\<close>: in the heap \<open>h\<close> every address of \<open>L\<close> points with \<open>next\<close> to its
  successor in \<open>L\<close>, and the successor points back with \<open>prev\<close>.
\<close>

fun links :: "('k, 'v) heap \<Rightarrow> addr list \<Rightarrow> bool" where
  "links h (a # b # rest) =
     (node_next (h a) = Some b \<and> node_prev (h b) = Some a \<and> links h (b # rest))"
| "links h [a] = True"
| "links h [] = True"

text \<open>
  \<open>lru_wf c xs\<close>: the cache \<open>c\<close> is well formed and \<open>xs\<close> are the nodes of its list,
  most recently used first.  The sentinels and the nodes are distinct allocated
  objects linked in both directions, the dictionary has one entry per key, the nodes it
  holds are exactly the nodes of the list, and every entry's node carries the entry's key.
\<close>

definition lru_wf :: "('k, 'v) lru_cache \<Rightarrow> addr list \<Rightarrow> bool" where
  "lru_wf c xs =
     (links (heap c) (dll_head (dll c) # xs @ [dll_tail (dll c)])
      \<and> distinct (dll_head (dll c) # xs @ [dll_tail (dll c)])
      \<and> list_all (\<lambda>a. a < fresh c) (dll_head (dll c) # xs @ [dll_tail (dll c)])
      \<and> distinct (map fst (cache c))
      \<and> set (map snd (cache c)) = set xs
      \<and> list_all (\<lambda>(k, n). node_key (heap c n) = Some k) (cache c))"

text \<open>
  The store that \<open>KeyValueStore(capacity)\<close> builds when there is no log file yet.
\<close>

definition fresh_store :: "int \<Rightarrow> kv_store" where
  "fresh_store cap = \<lparr>kv_cache = LRUCache cap, kv_log = None\<rparr>"

section \<open>What a run writes to the log\<close>

text \<open>
  The mutations a run leaves in the log, as cache operations: a \<open>set\<close> that returned
  writes a \<open>SET\<close> line, a \<open>delete\<close> that removed its key writes a \<open>DEL\<close> line, a
  \<open>get\<close> writes nothing.  \<open>entry_text\<close> is the line written for a mutation.
\<close>

fun logged :: "kv_op \<Rightarrow> (py_error + kv_result) \<Rightarrow> (string, string) lru_op list" where
  "logged (Set k v) (Inr SetDone) = [Put k v]"
| "logged (Delete k) (Inr (DeleteDone True)) = [Remove k]"
| "logged _ _ = []"

fun trace :: "kv_op list \<Rightarrow> kv_store \<Rightarrow> (string, string) lru_op list" where
  "trace [] s = []"
| "trace (op # ops) s = logged op (fst (kv_step True op s)) @ trace ops (snd (kv_step True op s))"

fun entry_text :: "(string, string) lru_op \<Rightarrow> string" where
  "entry_text (Put k v) = log_line ''SET'' k (Some v)"
| "entry_text (Remove k) = log_line ''DEL'' k None"
| "entry_text (Lookup k) = []"

definition file_text :: "string option \<Rightarrow> string" where
  "file_text f = (case f of None \<Rightarrow> [] | Some t \<Rightarrow> t)"

text \<open>
  The strings the line format can carry.  A key or value is \<open>plain\<close> when it contains
  neither the field separator nor a line break; a value must moreover not end in white
  space, which \<open>strip\<close> would remove from the end of the line.
\<close>

definition plain :: "string \<Rightarrow> bool" where
  "plain s = (CHR ''|'' \<notin> set s \<and> CHR 0x0A \<notin> set s \<and> CHR 0x0D \<notin> set s)"

fun log_safe :: "kv_op \<Rightarrow> bool" where
  "log_safe (Set k v) = (plain k \<and> plain v \<and> (v = [] \<or> \<not> isspace (last v)))"
| "log_safe (Get k) = True"
| "log_safe (Delete k) = plain k"

text \<open>
  Two properties of a run from a store \<open>s\<close>.  \<open>no_get_hit\<close>: no \<open>get\<close> finds its key
  in the dictionary, so no \<open>get\<close> changes the recency order.  \<open>no_eviction\<close>: every
  \<open>set\<close> of a key that is not in the dictionary finds fewer entries than the capacity,
  so no \<open>set\<close> evicts.
\<close>

fun no_get_hit :: "kv_op list \<Rightarrow> kv_store \<Rightarrow> bool" where
  "no_get_hit [] s = True"
| "no_get_hit (op # ops) s =
     ((case op of Get k \<Rightarrow> k \<notin> fst ` set (cache (kv_cache s)) | _ \<Rightarrow> True)
      \<and> no_get_hit ops (snd (kv_step True op s)))"

fun no_eviction :: "kv_op list \<Rightarrow> kv_store \<Rightarrow> bool" where
  "no_eviction [] s = True"
| "no_eviction (op # ops) s =
     ((case op of
         Set k v \<Rightarrow> k \<in> fst ` set (cache (kv_cache s))
                    \<or> int (length (cache (kv_cache s))) < capacity (kv_cache s)
       | _ \<Rightarrow> True)
      \<and> no_eviction ops (snd (kv_step True op s)))"

text \<open>
  Two caches with the same content: the same dictionary, the same allocation pointer,
  capacity and sentinels, and the same value in every node.  The \<open>prev\<close> and \<open>next\<close>
  links, that is the recency order, may differ.
\<close>

definition same_content :: "('k, 'v) lru_cache \<Rightarrow> ('k, 'v) lru_cache \<Rightarrow> bool" where
  "same_content c c' =
     (cache c = cache c' \<and> fresh c = fresh c' \<and> capacity c = capacity c' \<and> dll c = dll c'
      \<and> (\<forall>a. node_value (heap c a) = node_value (heap c' a)))"

section \<open>Verified properties\<close>

subsection \<open>Linked nodes\<close>

lemma links_cong:
  "\<lbrakk>\<And>a. a \<in> set (butlast L) \<Longrightarrow> node_next (h' a) = node_next (h a);
    \<And>a. a \<in> set (tl L) \<Longrightarrow> node_prev (h' a) = node_prev (h a)\<rbrakk>
   \<Longrightarrow> links h' L = links h L"
proof (induction h L rule: links.induct)
  case (1 h a b rest)
  then show ?case by auto
qed simp_all

lemma links_append:
  "links h (as @ m # bs) = (links h (as @ [m]) \<and> links h (m # bs))"
proof (induction h as rule: links.induct)
  case (1 h a b rest)
  then show ?case by auto
qed simp_all

lemma links_pred:
  "links h (L1 @ [p, n] @ L2) \<Longrightarrow> node_prev (h n) = Some p \<and> node_next (h p) = Some n"
  using links_append[of h L1 p "n # L2"] by simp

lemma walk_next_links:
  "\<lbrakk>links h (p # xs @ [q]); q \<notin> set xs; length xs < fuel\<rbrakk>
   \<Longrightarrow> walk_next fuel h p q = Some xs"
proof (induction xs arbitrary: p fuel)
  case Nil
  then show ?case by (cases fuel) auto
next
  case (Cons x xs)
  then show ?case by (cases fuel) auto
qed

lemma walk_prev_links:
  "\<lbrakk>links h (p # xs @ [q]); p \<notin> set xs; length xs < fuel\<rbrakk>
   \<Longrightarrow> walk_prev fuel h p q = Some xs"
proof (induction xs arbitrary: q fuel rule: rev_induct)
  case Nil
  then show ?case by (cases fuel) auto
next
  case (snoc x xs)
  have "links h ((p # xs) @ x # [q])" using snoc.prems(1) by simp
  then have l: "links h (p # xs @ [x])" "node_prev (h q) = Some x"
    using links_append[of h "p # xs" x "[q]"] by auto
  obtain f where f: "fuel = Suc f" using snoc.prems(3) by (cases fuel) auto
  have "walk_prev f h p x = Some xs"
    using snoc.IH[OF l(1)] snoc.prems f by auto
  then show ?case using l(2) f snoc.prems(2) by auto
qed

lemma add_to_front_links:
  assumes "links h (dll_head l # xs @ [dll_tail l])"
    and "n \<notin> set (dll_head l # xs @ [dll_tail l])"
    and "distinct (dll_head l # xs @ [dll_tail l])"
  shows "\<exists>h'. add_to_front l n h = Inr h'
            \<and> links h' (dll_head l # n # xs @ [dll_tail l])
            \<and> (\<forall>a. node_key (h' a) = node_key (h a) \<and> node_value (h' a) = node_value (h a))"
proof -
  obtain f rest where fr: "xs @ [dll_tail l] = f # rest"
    by (cases "xs @ [dll_tail l]") auto
  have nx: "node_next (h (dll_head l)) = Some f" and lr: "links h (f # rest)"
    using assms(1) fr by auto
  have ne: "n \<noteq> dll_head l" "n \<noteq> f" "n \<notin> set rest" "dll_head l \<noteq> f" "f \<notin> set rest"
    "dll_head l \<notin> set rest"
    using assms(2,3) fr by auto
  define h' where "h' = (h(n := (h n)\<lparr>node_next := Some f, node_prev := Some (dll_head l)\<rparr>,
                          f := (h f)\<lparr>node_prev := Some n\<rparr>,
                          dll_head l := (h (dll_head l))\<lparr>node_next := Some n\<rparr>))"
  have eq: "add_to_front l n h = Inr h'"
    using nx ne by (auto simp: add_to_front_def h'_def Let_def fun_upd_twist)
  have "links h' (f # rest) = links h (f # rest)"
  proof (rule links_cong)
    fix a assume "a \<in> set (butlast (f # rest))"
    then have "a \<in> set (f # rest)" by (rule in_set_butlastD)
    then show "node_next (h' a) = node_next (h a)" using ne by (auto simp: h'_def)
  next
    fix a assume "a \<in> set (tl (f # rest))"
    then show "node_prev (h' a) = node_prev (h a)" using ne by (auto simp: h'_def)
  qed
  then have "links h' (dll_head l # n # f # rest)"
    using lr ne by (simp add: h'_def)
  moreover have "\<forall>a. node_key (h' a) = node_key (h a) \<and> node_value (h' a) = node_value (h a)"
    by (simp add: h'_def)
  ultimately show ?thesis using eq fr by auto
qed

lemma remove_node_links:
  assumes "links h (L1 @ [p, n, s] @ L2)" and "distinct (L1 @ [p, n, s] @ L2)"
  shows "\<exists>h'. remove_node n h = Inr h'
            \<and> links h' (L1 @ [p, s] @ L2)
            \<and> (\<forall>a. node_key (h' a) = node_key (h a) \<and> node_value (h' a) = node_value (h a))"
proof -
  have a1: "links h (L1 @ [p])" and a2: "links h (p # n # s # L2)"
    using assms(1) links_append[of h L1 p "n # s # L2"] by auto
  then have pn: "node_prev (h n) = Some p" "node_next (h n) = Some s" and a3: "links h (s # L2)"
    by auto
  define h' where "h' = h(p := (h p)\<lparr>node_next := Some s\<rparr>, s := (h s)\<lparr>node_prev := Some p\<rparr>)"
  have ne: "p \<noteq> s" "p \<notin> set L1" "s \<notin> set L1" "p \<notin> set L2" "s \<notin> set L2"
    using assms(2) by auto
  have eq: "remove_node n h = Inr h'"
    using pn ne by (auto simp: remove_node_def h'_def Let_def)
  have b1: "links h' (L1 @ [p]) = links h (L1 @ [p])"
  proof (rule links_cong)
    fix a assume "a \<in> set (butlast (L1 @ [p]))"
    then show "node_next (h' a) = node_next (h a)" using ne by (auto simp: h'_def)
  next
    fix a assume "a \<in> set (tl (L1 @ [p]))"
    then have "a \<in> set (L1 @ [p])" by (rule list.set_sel(2)[rotated]) simp
    then show "node_prev (h' a) = node_prev (h a)" using ne by (auto simp: h'_def)
  qed
  have b3: "links h' (s # L2) = links h (s # L2)"
  proof (rule links_cong)
    fix a assume "a \<in> set (butlast (s # L2))"
    then have "a \<in> set (s # L2)" by (rule in_set_butlastD)
    then show "node_next (h' a) = node_next (h a)" using ne by (auto simp: h'_def)
  next
    fix a assume "a \<in> set (tl (s # L2))"
    then show "node_prev (h' a) = node_prev (h a)" using ne by (auto simp: h'_def)
  qed
  have "links h' (p # s # L2)" using b3 a3 ne by (simp add: h'_def)
  then have "links h' (L1 @ [p, s] @ L2)"
    using b1 a1 links_append[of h' L1 p "s # L2"] by simp
  moreover have "\<forall>a. node_key (h' a) = node_key (h a) \<and> node_value (h' a) = node_value (h a)"
    by (simp add: h'_def)
  ultimately show ?thesis using eq by auto
qed

lemma split_around:
  assumes "n \<in> set xs" and "distinct (hd0 # xs @ [tl0])"
  shows "\<exists>L1 p s L2. hd0 # xs @ [tl0] = L1 @ [p, n, s] @ L2
                   \<and> hd0 # remove1 n xs @ [tl0] = L1 @ [p, s] @ L2"
proof -
  obtain ys zs where xs: "xs = ys @ n # zs" using assms(1) by (auto dest: split_list)
  have nys: "n \<notin> set ys" using assms(2) xs by auto
  obtain L1 p where lp: "hd0 # ys = L1 @ [p]"
    by (metis append_butlast_last_id list.distinct(1))
  obtain s L2 where sl: "zs @ [tl0] = s # L2" by (cases "zs @ [tl0]") auto
  have r: "remove1 n xs = ys @ zs" using nys xs by (simp add: remove1_append)
  have "hd0 # xs @ [tl0] = (hd0 # ys) @ n # (zs @ [tl0])" using xs by simp
  also have "\<dots> = L1 @ [p, n, s] @ L2" using lp sl by simp
  finally have e1: "hd0 # xs @ [tl0] = L1 @ [p, n, s] @ L2" .
  have "hd0 # remove1 n xs @ [tl0] = (hd0 # ys) @ (zs @ [tl0])" using r by simp
  also have "\<dots> = L1 @ [p, s] @ L2" using lp sl by simp
  finally show ?thesis using e1 by blast
qed

lemma remove_node_list:
  assumes "links h (hd0 # xs @ [tl0])" and "distinct (hd0 # xs @ [tl0])" and "n \<in> set xs"
  shows "\<exists>h'. remove_node n h = Inr h'
            \<and> links h' (hd0 # remove1 n xs @ [tl0])
            \<and> (\<forall>a. node_key (h' a) = node_key (h a) \<and> node_value (h' a) = node_value (h a))"
proof -
  obtain L1 p s L2 where e: "hd0 # xs @ [tl0] = L1 @ [p, n, s] @ L2"
    "hd0 # remove1 n xs @ [tl0] = L1 @ [p, s] @ L2"
    using split_around[OF assms(3,2)] by blast
  show ?thesis
    using remove_node_links[of h L1 p n s L2] assms(1,2) e by metis
qed

subsection \<open>Cache operations on a well-formed cache\<close>

lemma index_node_in_list:
  assumes "lru_wf c xs" and "map_of (cache c) k = Some n"
  shows "n \<in> set xs" and "node_key (heap c n) = Some k"
proof -
  have m: "(k, n) \<in> set (cache c)" using assms(2) by (rule map_of_SomeD)
  then have "n \<in> set (map snd (cache c))" by force
  then show "n \<in> set xs" using assms(1) by (simp add: lru_wf_def)
  have "list_all (\<lambda>(k, n). node_key (heap c n) = Some k) (cache c)"
    using assms(1) by (simp add: lru_wf_def)
  then show "node_key (heap c n) = Some k" using m by (auto simp: list_all_iff)
qed

lemma move_to_front:
  assumes l: "links h (dll_head l # xs @ [dll_tail l])"
    and d: "distinct (dll_head l # xs @ [dll_tail l])"
    and n: "n \<in> set xs"
  shows "\<exists>h1 h2. remove_node n h = Inr h1 \<and> add_to_front l n h1 = Inr h2
            \<and> links h2 (dll_head l # (n # remove1 n xs) @ [dll_tail l])
            \<and> (\<forall>a. node_key (h2 a) = node_key (h a) \<and> node_value (h2 a) = node_value (h a))"
proof -
  obtain h1 where h1: "remove_node n h = Inr h1"
    "links h1 (dll_head l # remove1 n xs @ [dll_tail l])"
    "\<forall>a. node_key (h1 a) = node_key (h a) \<and> node_value (h1 a) = node_value (h a)"
    using remove_node_list[OF l d n] by blast
  have nn: "n \<notin> set (dll_head l # remove1 n xs @ [dll_tail l])"
    using d n by auto
  have dd: "distinct (dll_head l # remove1 n xs @ [dll_tail l])"
    using d by (auto dest: notin_set_remove1)
  obtain h2 where h2: "add_to_front l n h1 = Inr h2"
    "links h2 (dll_head l # n # remove1 n xs @ [dll_tail l])"
    "\<forall>a. node_key (h2 a) = node_key (h1 a) \<and> node_value (h2 a) = node_value (h1 a)"
    using add_to_front_links[OF h1(2) nn dd] by blast
  show ?thesis using h1 h2 by auto
qed

lemma lru_wf_move_to_front:
  assumes w: "lru_wf c xs" and n: "n \<in> set xs"
    and k: "\<forall>a. node_key (h2 a) = node_key (heap c a)"
    and l: "links h2 (dll_head (dll c) # (n # remove1 n xs) @ [dll_tail (dll c)])"
  shows "lru_wf (c\<lparr>heap := h2\<rparr>) (n # remove1 n xs)"
proof -
  have d: "distinct (dll_head (dll c) # xs @ [dll_tail (dll c)])"
    using w by (simp add: lru_wf_def)
  have s: "set (n # remove1 n xs) = set xs" using n d by auto
  have d': "distinct (dll_head (dll c) # (n # remove1 n xs) @ [dll_tail (dll c)])"
    using d n by (auto dest: notin_set_remove1)
  have a: "list_all (\<lambda>a. a < fresh c) (dll_head (dll c) # (n # remove1 n xs) @ [dll_tail (dll c)])"
    using w s unfolding lru_wf_def list_all_iff by (metis insert_iff list.set(2) set_append)
  show ?thesis
    using w l d' a s k unfolding lru_wf_def by simp
qed

lemma LRUCache_get_hit:
  assumes w: "lru_wf c xs" and m: "map_of (cache c) k = Some n"
  shows "\<exists>h2. LRUCache_get k c = Inr (node_value (heap c n), c\<lparr>heap := h2\<rparr>)
            \<and> lru_wf (c\<lparr>heap := h2\<rparr>) (n # remove1 n xs)
            \<and> (\<forall>a. node_value (h2 a) = node_value (heap c a))"
proof -
  have n: "n \<in> set xs" using index_node_in_list[OF w m] by simp
  obtain h1 h2 where h: "remove_node n (heap c) = Inr h1" "add_to_front (dll c) n h1 = Inr h2"
    "links h2 (dll_head (dll c) # (n # remove1 n xs) @ [dll_tail (dll c)])"
    "\<forall>a. node_key (h2 a) = node_key (heap c a) \<and> node_value (h2 a) = node_value (heap c a)"
    using move_to_front[of "heap c" "dll c" xs n] w n unfolding lru_wf_def by blast
  have "lru_wf (c\<lparr>heap := h2\<rparr>) (n # remove1 n xs)"
    using lru_wf_move_to_front[OF w n _ h(3)] h(4) by simp
  then show ?thesis using h m by (auto simp: LRUCache_get_def)
qed

lemma LRUCache_get_miss:
  "map_of (cache c) k = None \<Longrightarrow> LRUCache_get k c = Inr (None, c)"
  by (simp add: LRUCache_get_def)

lemma LRUCache_put_hit:
  assumes w: "lru_wf c xs" and m: "map_of (cache c) k = Some n"
  shows "\<exists>h2. LRUCache_put k v c = Inr (c\<lparr>heap := h2\<rparr>)
            \<and> lru_wf (c\<lparr>heap := h2\<rparr>) (n # remove1 n xs)
            \<and> (\<forall>a. node_value (h2 a) = (if a = n then Some v else node_value (heap c a)))"
proof -
  have n: "n \<in> set xs" using index_node_in_list[OF w m] by simp
  define h0 where "h0 = (heap c)(n := (heap c n)\<lparr>node_value := Some v\<rparr>)"
  have "links h0 (dll_head (dll c) # xs @ [dll_tail (dll c)])
        = links (heap c) (dll_head (dll c) # xs @ [dll_tail (dll c)])"
    by (rule links_cong) (simp_all add: h0_def)
  then have l0: "links h0 (dll_head (dll c) # xs @ [dll_tail (dll c)])"
    using w by (simp add: lru_wf_def)
  have d: "distinct (dll_head (dll c) # xs @ [dll_tail (dll c)])"
    using w by (simp add: lru_wf_def)
  obtain h1 h2 where h: "remove_node n h0 = Inr h1" "add_to_front (dll c) n h1 = Inr h2"
    "links h2 (dll_head (dll c) # (n # remove1 n xs) @ [dll_tail (dll c)])"
    "\<forall>a. node_key (h2 a) = node_key (h0 a) \<and> node_value (h2 a) = node_value (h0 a)"
    using move_to_front[OF l0 d n] by blast
  have wf2: "lru_wf (c\<lparr>heap := h2\<rparr>) (n # remove1 n xs)"
    using lru_wf_move_to_front[OF w n _ h(3)] h(4) by (simp add: h0_def)
  have eq: "LRUCache_put k v c = Inr (c\<lparr>heap := h2\<rparr>)"
    using h(1,2) m by (simp add: LRUCache_put_def h0_def[symmetric])
  have "\<forall>a. node_value (h2 a) = (if a = n then Some v else node_value (heap c a))"
    using h(4) by (simp add: h0_def)
  then show ?thesis using wf2 eq by blast
qed

lemma index_delete:
  assumes d: "distinct (map fst al)"
    and a: "list_all (\<lambda>(k, n). node_key (h n) = Some k) al"
    and m: "(k, n) \<in> set al"
  shows "set (map snd (AList.delete k al)) = set (map snd al) - {n}"
proof -
  have 1: "\<And>k' n'. (k', n') \<in> set al \<Longrightarrow> (k' = k) = (n' = n)"
  proof -
    fix k' n' assume p: "(k', n') \<in> set al"
    have "node_key (h n') = Some k'" "node_key (h n) = Some k"
      using a p m by (auto simp: list_all_iff)
    moreover have "k' = k \<Longrightarrow> n' = n"
      using d p m by (metis eq_key_imp_eq_value)
    ultimately show "(k' = k) = (n' = n)" by auto
  qed
  have "set (AList.delete k al) = {p \<in> set al. fst p \<noteq> k}"
    by (auto simp: AList.delete_eq)
  then have "set (map snd (AList.delete k al)) = snd ` {p \<in> set al. fst p \<noteq> k}" by simp
  also have "\<dots> = set (map snd al) - {n}"
    using 1 by (auto simp: image_iff)
  finally show ?thesis .
qed

lemma remove_from_end_empty:
  assumes "links h [dll_head l, dll_tail l]"
  shows "remove_from_end l h = Inr (None, h)"
  using assms by (simp add: remove_from_end_def)

lemma remove_from_end_nonempty:
  assumes l: "links h (dll_head l # xs @ [dll_tail l])"
    and d: "distinct (dll_head l # xs @ [dll_tail l])"
    and ne: "xs \<noteq> []"
  shows "\<exists>h1. remove_from_end l h = Inr (Some (last xs), h1)
            \<and> links h1 (dll_head l # butlast xs @ [dll_tail l])
            \<and> (\<forall>a. node_key (h1 a) = node_key (h a) \<and> node_value (h1 a) = node_value (h a))"
proof -
  have xs: "xs = butlast xs @ [last xs]" using ne by simp
  have "links h ((dll_head l # butlast xs) @ [last xs, dll_tail l] @ [])"
    using l xs by (metis append.assoc append_Cons append_Nil append_Nil2)
  then have p: "node_prev (h (dll_tail l)) = Some (last xs)"
    using links_pred by blast
  have "last xs \<in> set xs" using ne by simp
  then have nh: "last xs \<noteq> dll_head l" using d by auto
  have "distinct (butlast xs @ [last xs])" using d xs by (metis distinct.simps(2) distinct_append)
  then have "last xs \<notin> set (butlast xs)" by simp
  then have "remove1 (last xs) (butlast xs @ [last xs]) = butlast xs"
    by (simp add: remove1_append)
  then have r: "remove1 (last xs) xs = butlast xs" using xs by simp
  obtain h1 where h1: "remove_node (last xs) h = Inr h1"
    "links h1 (dll_head l # remove1 (last xs) xs @ [dll_tail l])"
    "\<forall>a. node_key (h1 a) = node_key (h a) \<and> node_value (h1 a) = node_value (h a)"
    using remove_node_list[OF l d] ne by (meson last_in_set)
  show ?thesis using p nh h1 r by (auto simp: remove_from_end_def)
qed

lemma lru_wf_distinct_nodes:
  assumes "lru_wf c xs"
  shows "distinct (map snd (cache c))"
proof -
  have d: "distinct (map fst (cache c))"
    and a: "list_all (\<lambda>(k, n). node_key (heap c n) = Some k) (cache c)"
    using assms by (simp_all add: lru_wf_def)
  have "distinct (cache c)" using d by (simp add: distinct_map)
  moreover have "inj_on snd (set (cache c))"
  proof (rule inj_onI)
    fix p q assume "p \<in> set (cache c)" "q \<in> set (cache c)" "snd p = snd q"
    then have "(fst p, snd p) \<in> set (cache c)" "(fst q, snd p) \<in> set (cache c)"
      by (metis prod.collapse)+
    then have "node_key (heap c (snd p)) = Some (fst p)" "node_key (heap c (snd p)) = Some (fst q)"
      using a unfolding list_all_iff by blast+
    then show "p = q" using \<open>snd p = snd q\<close> by (simp add: prod_eq_iff)
  qed
  ultimately show ?thesis by (simp add: distinct_map)
qed

lemma lru_wf_length:
  assumes "lru_wf c xs"
  shows "length (cache c) = length xs"
proof -
  have "distinct xs" using assms by (simp add: lru_wf_def)
  then have "length xs = card (set xs)" by (simp add: distinct_card)
  also have "\<dots> = card (set (map snd (cache c)))" using assms by (simp add: lru_wf_def)
  also have "\<dots> = length (map snd (cache c))"
    using lru_wf_distinct_nodes[OF assms] by (rule distinct_card)
  finally show ?thesis by simp
qed

lemma evict_step:
  assumes w: "lru_wf c xs"
  shows "\<exists>c1. (if capacity c \<le> int (length (cache c))
                then (case remove_from_end (dll c) (heap c) of
                        Inl e \<Rightarrow> Inl e
                      | Inr (None, h1) \<Rightarrow> Inr (c\<lparr>heap := h1\<rparr>)
                      | Inr (Some lru, h1) \<Rightarrow>
                          (case node_key (h1 lru) of
                             None \<Rightarrow> Inl KeyError
                           | Some lk \<Rightarrow>
                               (if lk \<in> fst ` set (cache c)
                                then Inr (c\<lparr>heap := h1, cache := AList.delete lk (cache c)\<rparr>)
                                else Inl KeyError)))
                else Inr c) = Inr c1
             \<and> capacity c1 = capacity c \<and> dll c1 = dll c \<and> fresh c1 = fresh c
             \<and> (\<forall>a. node_value (heap c1 a) = node_value (heap c a))
             \<and> (if capacity c \<le> int (length (cache c)) \<and> xs \<noteq> []
                 then lru_wf c1 (butlast xs)
                      \<and> (\<exists>lk. node_key (heap c (last xs)) = Some lk
                               \<and> cache c1 = AList.delete lk (cache c))
                 else lru_wf c1 xs \<and> cache c1 = cache c)"
proof (cases "capacity c \<le> int (length (cache c))")
  case False
  then show ?thesis using w by simp
next
  case True
  note l = w[unfolded lru_wf_def, THEN conjunct1]
  have d: "distinct (dll_head (dll c) # xs @ [dll_tail (dll c)])"
    using w by (simp add: lru_wf_def)
  show ?thesis
  proof (cases "xs = []")
    case Nil: True
    have "remove_from_end (dll c) (heap c) = Inr (None, heap c)"
      using l Nil by (simp add: remove_from_end_empty)
    then show ?thesis using True Nil w by simp
  next
    case False
    obtain h1 where h1: "remove_from_end (dll c) (heap c) = Inr (Some (last xs), h1)"
      "links h1 (dll_head (dll c) # butlast xs @ [dll_tail (dll c)])"
      "\<forall>a. node_key (h1 a) = node_key (heap c a) \<and> node_value (h1 a) = node_value (heap c a)"
      using remove_from_end_nonempty[OF l d False] by blast
    have "last xs \<in> set (map snd (cache c))"
      using w False by (simp add: lru_wf_def)
    then obtain lk where lk: "(lk, last xs) \<in> set (cache c)" by auto
    have a: "list_all (\<lambda>(k, n). node_key (heap c n) = Some k) (cache c)"
      and dk: "distinct (map fst (cache c))"
      using w by (simp_all add: lru_wf_def)
    have key: "node_key (heap c (last xs)) = Some lk"
      using a lk by (auto simp: list_all_iff)
    have mem: "lk \<in> fst ` set (cache c)" using lk by force
    define c1 where "c1 = c\<lparr>heap := h1, cache := AList.delete lk (cache c)\<rparr>"
    have xs: "xs = butlast xs @ [last xs]" using False by simp
    have "distinct (butlast xs @ [last xs])" using d xs by (metis distinct.simps(2) distinct_append)
    then have nin: "last xs \<notin> set (butlast xs)" by simp
    have s: "set (map snd (AList.delete lk (cache c))) = set (butlast xs)"
    proof -
      have "set (map snd (AList.delete lk (cache c))) = set (map snd (cache c)) - {last xs}"
        using index_delete[OF dk a lk] .
      also have "\<dots> = set xs - {last xs}" using w by (simp add: lru_wf_def)
      also have "\<dots> = set (butlast xs)"
        using nin by (subst xs) auto
      finally show ?thesis .
    qed
    have d1: "distinct (dll_head (dll c) # butlast xs @ [dll_tail (dll c)])"
      using d by (auto simp: distinct_butlast dest: in_set_butlastD)
    have al1: "list_all (\<lambda>a. a < fresh c) (dll_head (dll c) # butlast xs @ [dll_tail (dll c)])"
      using w unfolding lru_wf_def list_all_iff by (auto dest: in_set_butlastD)
    have a1: "list_all (\<lambda>(k, n). node_key (h1 n) = Some k) (AList.delete lk (cache c))"
      using a h1(3) by (auto simp: list_all_iff AList.delete_eq)
    have w1: "lru_wf c1 (butlast xs)"
      unfolding lru_wf_def c1_def using h1(2) d1 al1 s a1 dk by (simp add: distinct_delete)
    have "(case remove_from_end (dll c) (heap c) of
             Inl e \<Rightarrow> Inl e
           | Inr (None, h1) \<Rightarrow> Inr (c\<lparr>heap := h1\<rparr>)
           | Inr (Some lru, h1) \<Rightarrow>
               (case node_key (h1 lru) of
                  None \<Rightarrow> Inl KeyError
                | Some lk \<Rightarrow>
                    (if lk \<in> fst ` set (cache c)
                     then Inr (c\<lparr>heap := h1, cache := AList.delete lk (cache c)\<rparr>)
                     else Inl KeyError))) = Inr c1"
      using h1(1,3) key mem by (simp add: c1_def)
    then show ?thesis using True False w1 key h1(3) by (auto simp: c1_def)
  qed
qed

lemma update_new_key:
  "k \<notin> fst ` set al \<Longrightarrow> AList.update k v al = al @ [(k, v)]"
  by (induction al) auto

lemma insert_step:
  assumes w: "lru_wf c1 xs1" and m: "k \<notin> fst ` set (cache c1)"
  shows "\<exists>c'. (let (new_node, c2) = alloc (Node (Some k) (Some v)) c1
               in case add_to_front (dll c2) new_node (heap c2) of
                    Inl e \<Rightarrow> Inl e
                  | Inr h3 \<Rightarrow> Inr (c2\<lparr>heap := h3, cache := AList.update k new_node (cache c2)\<rparr>))
              = Inr c'
            \<and> lru_wf c' (fresh c1 # xs1)
            \<and> cache c' = cache c1 @ [(k, fresh c1)]
            \<and> capacity c' = capacity c1 \<and> dll c' = dll c1 \<and> fresh c' = Suc (fresh c1)
            \<and> (\<forall>a. node_value (heap c' a) = (if a = fresh c1 then Some v else node_value (heap c1 a)))"
proof -
  let ?L = "dll_head (dll c1) # xs1 @ [dll_tail (dll c1)]"
  define hA where "hA = (heap c1)(fresh c1 := Node (Some k) (Some v))"
  have lt: "list_all (\<lambda>a. a < fresh c1) ?L" and d: "distinct ?L" and l: "links (heap c1) ?L"
    using w by (simp_all add: lru_wf_def)
  have nin: "fresh c1 \<notin> set ?L" using lt unfolding list_all_iff by blast
  have "links hA ?L = links (heap c1) ?L"
  proof (rule links_cong)
    fix a assume "a \<in> set (butlast ?L)"
    then have "a \<in> set ?L" by (rule in_set_butlastD)
    then show "node_next (hA a) = node_next (heap c1 a)" using nin by (auto simp: hA_def)
  next
    fix a assume "a \<in> set (tl ?L)"
    then show "node_prev (hA a) = node_prev (heap c1 a)" using nin by (auto simp: hA_def)
  qed
  then have lA: "links hA ?L" using l by simp
  obtain h3 where h3: "add_to_front (dll c1) (fresh c1) hA = Inr h3"
    "links h3 (dll_head (dll c1) # fresh c1 # xs1 @ [dll_tail (dll c1)])"
    "\<forall>a. node_key (h3 a) = node_key (hA a) \<and> node_value (h3 a) = node_value (hA a)"
    using add_to_front_links[OF lA nin d] by blast
  define c' where "c' = c1\<lparr>heap := h3, fresh := Suc (fresh c1),
                            cache := cache c1 @ [(k, fresh c1)]\<rparr>"
  have eq: "(let (new_node, c2) = alloc (Node (Some k) (Some v)) c1
               in case add_to_front (dll c2) new_node (heap c2) of
                    Inl e \<Rightarrow> Inl e
                  | Inr h3 \<Rightarrow> Inr (c2\<lparr>heap := h3, cache := AList.update k new_node (cache c2)\<rparr>))
              = Inr c'"
    using h3(1) m by (simp add: alloc_def hA_def[symmetric] c'_def update_new_key)
  have a: "list_all (\<lambda>(k, n). node_key (heap c1 n) = Some k) (cache c1)"
    and dk: "distinct (map fst (cache c1))"
    and sn: "set (map snd (cache c1)) = set xs1"
    using w by (simp_all add: lru_wf_def)
  have a': "list_all (\<lambda>(k, n). node_key (h3 n) = Some k) (cache c1 @ [(k, fresh c1)])"
  proof -
    have "\<And>k' n. (k', n) \<in> set (cache c1) \<Longrightarrow> n \<noteq> fresh c1"
    proof -
      fix k' n assume "(k', n) \<in> set (cache c1)"
      then have "n \<in> set (map snd (cache c1))" by force
      then show "n \<noteq> fresh c1" using sn nin by auto
    qed
    then show ?thesis using a h3(3) by (auto simp: list_all_iff hA_def Node_def)
  qed
  have d': "distinct (dll_head (dll c1) # (fresh c1 # xs1) @ [dll_tail (dll c1)])"
    using d nin by auto
  have lt': "list_all (\<lambda>a. a < Suc (fresh c1)) (dll_head (dll c1) # (fresh c1 # xs1) @ [dll_tail (dll c1)])"
    using lt unfolding list_all_iff by (auto simp: less_Suc_eq)
  have dk': "distinct (map fst (cache c1 @ [(k, fresh c1)]))"
    using dk m by auto
  have w': "lru_wf c' (fresh c1 # xs1)"
    unfolding lru_wf_def c'_def using h3(2) d' lt' dk' sn a' by simp
  have "\<forall>a. node_value (heap c' a) = (if a = fresh c1 then Some v else node_value (heap c1 a))"
    using h3(3) by (simp add: c'_def hA_def Node_def)
  then show ?thesis using eq w' by (auto simp: c'_def)
qed

lemma LRUCache_delete_hit:
  assumes w: "lru_wf c xs" and m: "map_of (cache c) k = Some n"
  shows "\<exists>h1. LRUCache_delete k c = Inr (True, c\<lparr>heap := h1, cache := AList.delete k (cache c)\<rparr>)
            \<and> lru_wf (c\<lparr>heap := h1, cache := AList.delete k (cache c)\<rparr>) (remove1 n xs)
            \<and> (\<forall>a. node_value (h1 a) = node_value (heap c a))"
proof -
  let ?L = "dll_head (dll c) # xs @ [dll_tail (dll c)]"
  have lt: "list_all (\<lambda>a. a < fresh c) ?L" and d: "distinct ?L" and l: "links (heap c) ?L"
    and a: "list_all (\<lambda>(k, n). node_key (heap c n) = Some k) (cache c)"
    and dk: "distinct (map fst (cache c))"
    and sn: "set (map snd (cache c)) = set xs"
    using w by (simp_all add: lru_wf_def)
  have n: "n \<in> set xs" using index_node_in_list[OF w m] by simp
  have kn: "(k, n) \<in> set (cache c)" using m by (rule map_of_SomeD)
  obtain h1 where h1: "remove_node n (heap c) = Inr h1"
    "links h1 (dll_head (dll c) # remove1 n xs @ [dll_tail (dll c)])"
    "\<forall>a. node_key (h1 a) = node_key (heap c a) \<and> node_value (h1 a) = node_value (heap c a)"
    using remove_node_list[OF l d n] by blast
  have s: "set (map snd (AList.delete k (cache c))) = set (remove1 n xs)"
    using index_delete[OF dk a kn] sn d by (simp add: set_remove1_eq)
  have d1: "distinct (dll_head (dll c) # remove1 n xs @ [dll_tail (dll c)])"
    using d by (auto dest: notin_set_remove1)
  have lt1: "list_all (\<lambda>a. a < fresh c) (dll_head (dll c) # remove1 n xs @ [dll_tail (dll c)])"
    using lt unfolding list_all_iff by (auto dest: notin_set_remove1)
  have a1: "list_all (\<lambda>(k, n). node_key (h1 n) = Some k) (AList.delete k (cache c))"
    using a h1(3) by (auto simp: list_all_iff AList.delete_eq)
  have "lru_wf (c\<lparr>heap := h1, cache := AList.delete k (cache c)\<rparr>) (remove1 n xs)"
    unfolding lru_wf_def using h1(2) d1 lt1 s a1 dk by (simp add: distinct_delete)
  then show ?thesis using h1 m by (auto simp: LRUCache_delete_def)
qed

lemma LRUCache_delete_miss:
  "map_of (cache c) k = None \<Longrightarrow> LRUCache_delete k c = Inr (False, c)"
  by (simp add: LRUCache_delete_def)

lemma lru_wf_init: "lru_wf (LRUCache cap) []"
  by (simp add: lru_wf_def LRUCache_def LRUCache_init_def Node_def empty_heap_def)

lemma LRUCache_put_miss:
  assumes w: "lru_wf c xs" and m: "map_of (cache c) k = None"
  shows "\<exists>c'.
           LRUCache_put k v c = Inr c'
           \<and> (if capacity c \<le> int (length (cache c)) \<and> xs \<noteq> []
               then lru_wf c' (fresh c # butlast xs)
                    \<and> (\<exists>lk. node_key (heap c (last xs)) = Some lk
                             \<and> cache c' = AList.delete lk (cache c) @ [(k, fresh c)])
               else lru_wf c' (fresh c # xs) \<and> cache c' = cache c @ [(k, fresh c)])
           \<and> capacity c' = capacity c \<and> dll c' = dll c \<and> fresh c' = Suc (fresh c)
           \<and> (\<forall>a. node_value (heap c' a) = (if a = fresh c then Some v else node_value (heap c a)))"
proof -
  obtain c1 where c1:
    "(if capacity c \<le> int (length (cache c))
                then (case remove_from_end (dll c) (heap c) of
                        Inl e \<Rightarrow> Inl e
                      | Inr (None, h1) \<Rightarrow> Inr (c\<lparr>heap := h1\<rparr>)
                      | Inr (Some lru, h1) \<Rightarrow>
                          (case node_key (h1 lru) of
                             None \<Rightarrow> Inl KeyError
                           | Some lk \<Rightarrow>
                               (if lk \<in> fst ` set (cache c)
                                then Inr (c\<lparr>heap := h1, cache := AList.delete lk (cache c)\<rparr>)
                                else Inl KeyError)))
                else Inr c) = Inr c1"
    "capacity c1 = capacity c" "dll c1 = dll c" "fresh c1 = fresh c"
    "\<forall>a. node_value (heap c1 a) = node_value (heap c a)"
    "if capacity c \<le> int (length (cache c)) \<and> xs \<noteq> []
                 then lru_wf c1 (butlast xs)
                      \<and> (\<exists>lk. node_key (heap c (last xs)) = Some lk
                               \<and> cache c1 = AList.delete lk (cache c))
                 else lru_wf c1 xs \<and> cache c1 = cache c"
    using evict_step[OF w] by blast
  define xs1 where "xs1 = (if capacity c \<le> int (length (cache c)) \<and> xs \<noteq> [] then butlast xs else xs)"
  have w1: "lru_wf c1 xs1" using c1(6) by (auto simp: xs1_def split: if_splits)
  have k0: "k \<notin> fst ` set (cache c)" using m by (simp add: map_of_eq_None_iff)
  have k1: "k \<notin> fst ` set (cache c1)"
  proof (cases "capacity c \<le> int (length (cache c)) \<and> xs \<noteq> []")
    case True
    then obtain lk where "cache c1 = AList.delete lk (cache c)" using c1(6) by auto
    then show ?thesis using k0 dom_delete_subset[of lk "cache c"] by auto
  next
    case False
    then show ?thesis using c1(6) k0 by simp
  qed
  obtain c' where c':
    "(let (new_node, c2) = alloc (Node (Some k) (Some v)) c1
               in case add_to_front (dll c2) new_node (heap c2) of
                    Inl e \<Rightarrow> Inl e
                  | Inr h3 \<Rightarrow> Inr (c2\<lparr>heap := h3, cache := AList.update k new_node (cache c2)\<rparr>))
              = Inr c'"
    "lru_wf c' (fresh c1 # xs1)"
    "cache c' = cache c1 @ [(k, fresh c1)]"
    "capacity c' = capacity c1" "dll c' = dll c1" "fresh c' = Suc (fresh c1)"
    "\<forall>a. node_value (heap c' a) = (if a = fresh c1 then Some v else node_value (heap c1 a))"
    using insert_step[OF w1 k1] by blast
  have eq: "LRUCache_put k v c = Inr c'"
    unfolding LRUCache_put_def using m c1(1) c'(1) by simp
  show ?thesis
  proof (cases "capacity c \<le> int (length (cache c)) \<and> xs \<noteq> []")
    case True
    then obtain lk where lk: "node_key (heap c (last xs)) = Some lk"
      "cache c1 = AList.delete lk (cache c)" using c1(6) by auto
    have "lru_wf c' (fresh c # butlast xs)" using c'(2) c1(4) True by (simp add: xs1_def)
    moreover have "cache c' = AList.delete lk (cache c) @ [(k, fresh c)]"
      using c'(3) lk(2) c1(4) by simp
    ultimately have "if capacity c \<le> int (length (cache c)) \<and> xs \<noteq> []
               then lru_wf c' (fresh c # butlast xs)
                    \<and> (\<exists>lk. node_key (heap c (last xs)) = Some lk
                             \<and> cache c' = AList.delete lk (cache c) @ [(k, fresh c)])
               else lru_wf c' (fresh c # xs) \<and> cache c' = cache c @ [(k, fresh c)]"
      unfolding if_P[OF True] using lk(1) by blast
    then show ?thesis using eq c'(4,5,6,7) c1(2,3,4,5) by simp
  next
    case False
    have "lru_wf c' (fresh c # xs)" using c'(2) c1(4) False by (simp add: xs1_def)
    moreover have "cache c' = cache c @ [(k, fresh c)]"
      using c'(3) c1(4,6) False by simp
    ultimately have "if capacity c \<le> int (length (cache c)) \<and> xs \<noteq> []
               then lru_wf c' (fresh c # butlast xs)
                    \<and> (\<exists>lk. node_key (heap c (last xs)) = Some lk
                             \<and> cache c' = AList.delete lk (cache c) @ [(k, fresh c)])
               else lru_wf c' (fresh c # xs) \<and> cache c' = cache c @ [(k, fresh c)]"
      unfolding if_not_P[OF False] by blast
    then show ?thesis using eq c'(4,5,6,7) c1(2,3,4,5) by simp
  qed
qed

lemma lru_step_wf:
  assumes w: "lru_wf c xs"
    and cap: "1 \<le> capacity c" "int (length (cache c)) \<le> capacity c"
  shows "\<exists>c' xs'. lru_step op c = Inr c' \<and> lru_wf c' xs'
           \<and> capacity c' = capacity c \<and> int (length (cache c')) \<le> capacity c'"
proof (cases op)
  case (Put k v)
  show ?thesis
  proof (cases "map_of (cache c) k")
    case None
    obtain c' where c': "LRUCache_put k v c = Inr c'"
      "if capacity c \<le> int (length (cache c)) \<and> xs \<noteq> []
       then lru_wf c' (fresh c # butlast xs)
            \<and> (\<exists>lk. node_key (heap c (last xs)) = Some lk
                     \<and> cache c' = AList.delete lk (cache c) @ [(k, fresh c)])
       else lru_wf c' (fresh c # xs) \<and> cache c' = cache c @ [(k, fresh c)]"
      "capacity c' = capacity c"
      using LRUCache_put_miss[OF w None, of v] by blast
    have len: "length (cache c) = length xs" using lru_wf_length[OF w] .
    show ?thesis
    proof (cases "capacity c \<le> int (length (cache c)) \<and> xs \<noteq> []")
      case True
      have w': "lru_wf c' (fresh c # butlast xs)" using c'(2) unfolding if_P[OF True] by simp
      have "length (cache c') = length (fresh c # butlast xs)" using lru_wf_length[OF w'] .
      then have "length (cache c') = length (cache c)" using len True by simp
      then show ?thesis using c'(1,3) w' cap Put by auto
    next
      case False
      have w': "lru_wf c' (fresh c # xs)" using c'(2) unfolding if_not_P[OF False] by simp
      have l': "length (cache c') = Suc (length (cache c))"
        using lru_wf_length[OF w'] len by simp
      have "\<not> capacity c \<le> int (length (cache c))"
        using False len cap(1) by auto
      then have "int (length (cache c')) \<le> capacity c'" using l' c'(3) by simp
      then show ?thesis using c'(1,3) w' Put by auto
    qed
  next
    case (Some n)
    obtain h2 where "LRUCache_put k v c = Inr (c\<lparr>heap := h2\<rparr>)"
      "lru_wf (c\<lparr>heap := h2\<rparr>) (n # remove1 n xs)"
      using LRUCache_put_hit[OF w Some, of v] by blast
    then show ?thesis using cap Put by auto
  qed
next
  case (Lookup k)
  show ?thesis
  proof (cases "map_of (cache c) k")
    case None
    then show ?thesis using w cap Lookup by (auto simp: LRUCache_get_miss)
  next
    case (Some n)
    obtain h2 where "LRUCache_get k c = Inr (node_value (heap c n), c\<lparr>heap := h2\<rparr>)"
      "lru_wf (c\<lparr>heap := h2\<rparr>) (n # remove1 n xs)"
      using LRUCache_get_hit[OF w Some] by blast
    then show ?thesis using cap Lookup by auto
  qed
next
  case (Remove k)
  show ?thesis
  proof (cases "map_of (cache c) k")
    case None
    then show ?thesis using w cap Remove by (auto simp: LRUCache_delete_miss)
  next
    case (Some n)
    obtain h1 where h1: "LRUCache_delete k c = Inr (True, c\<lparr>heap := h1, cache := AList.delete k (cache c)\<rparr>)"
      "lru_wf (c\<lparr>heap := h1, cache := AList.delete k (cache c)\<rparr>) (remove1 n xs)"
      using LRUCache_delete_hit[OF w Some] by blast
    have "length (AList.delete k (cache c)) \<le> length (cache c)" by (rule length_delete_le)
    then show ?thesis using h1 cap Remove by auto
  qed
qed

lemma lru_run_wf:
  assumes "lru_wf c xs" and "1 \<le> capacity c" and "int (length (cache c)) \<le> capacity c"
  shows "\<exists>c' xs'. lru_run ops c = Inr c' \<and> lru_wf c' xs'
           \<and> capacity c' = capacity c \<and> int (length (cache c')) \<le> capacity c'"
  using assms
proof (induction ops arbitrary: c xs)
  case Nil
  then show ?case by auto
next
  case (Cons op ops)
  obtain c1 xs1 where s: "lru_step op c = Inr c1" "lru_wf c1 xs1"
    "capacity c1 = capacity c" "int (length (cache c1)) \<le> capacity c1"
    using lru_step_wf[OF Cons.prems] by blast
  obtain c' xs' where "lru_run ops c1 = Inr c'" "lru_wf c' xs'"
    "capacity c' = capacity c1" "int (length (cache c')) \<le> capacity c'"
    using Cons.IH[OF s(2)] s(3,4) Cons.prems(2) by auto
  then show ?case using s by auto
qed

lemma lru_wf_list_nodes:
  assumes w: "lru_wf c xs"
  shows "list_nodes c = Some xs" and "list_nodes_backwards c = Some xs"
proof -
  let ?L = "dll_head (dll c) # xs @ [dll_tail (dll c)]"
  have lt: "list_all (\<lambda>a. a < fresh c) ?L" and d: "distinct ?L" and l: "links (heap c) ?L"
    using w by (simp_all add: lru_wf_def)
  have "set ?L \<subseteq> {..<fresh c}" using lt unfolding list_all_iff by auto
  then have "card (set ?L) \<le> card {..<fresh c}" by (intro card_mono) auto
  then have "length ?L \<le> fresh c" using d by (simp only: distinct_card card_lessThan)
  then have f: "length xs < fresh c" by simp
  show "list_nodes c = Some xs"
    unfolding list_nodes_def using walk_next_links[OF l _ f] d by auto
  show "list_nodes_backwards c = Some xs"
    unfolding list_nodes_backwards_def using walk_prev_links[OF l _ f] d by auto
qed


lemma map_of_lru_items:
  "map_of (lru_items c) k = map_option (\<lambda>n. node_value (heap c n)) (map_of (cache c) k)"
  by (simp add: lru_items_def map_of_map)

lemma lru_items_same_values:
  assumes "\<forall>a. node_value (heap c' a) = node_value (heap c a)"
    and "cache c' = AList.delete k (cache c)"
  shows "lru_items c' = AList.delete k (lru_items c)"
proof -
  have "map (\<lambda>(k, n). (k, node_value (heap c n))) (filter (\<lambda>(k', _). k \<noteq> k') al)
        = filter (\<lambda>(k', _). k \<noteq> k') (map (\<lambda>(k, n). (k, node_value (heap c n))) al)" for al
    by (induction al) auto
  then show ?thesis using assms by (simp add: lru_items_def AList.delete_eq)
qed

lemma LRUCache_put_wf:
  assumes w: "lru_wf c xs"
  shows "\<exists>c' xs'. LRUCache_put k v c = Inr c' \<and> lru_wf c' xs'
            \<and> capacity c' = capacity c \<and> dll c' = dll c
            \<and> map_of (lru_items c') k = Some (Some v)"
proof (cases "map_of (cache c) k")
  case None
  obtain c' where c': "LRUCache_put k v c = Inr c'"
    "if capacity c \<le> int (length (cache c)) \<and> xs \<noteq> []
     then lru_wf c' (fresh c # butlast xs)
          \<and> (\<exists>lk. node_key (heap c (last xs)) = Some lk
                   \<and> cache c' = AList.delete lk (cache c) @ [(k, fresh c)])
     else lru_wf c' (fresh c # xs) \<and> cache c' = cache c @ [(k, fresh c)]"
    "capacity c' = capacity c" "dll c' = dll c"
    "\<forall>a. node_value (heap c' a) = (if a = fresh c then Some v else node_value (heap c a))"
    using LRUCache_put_miss[OF w None, of v] by blast
  have k0: "k \<notin> fst ` set (cache c)" using None by (simp add: map_of_eq_None_iff)
  have "\<exists>al. cache c' = al @ [(k, fresh c)] \<and> k \<notin> fst ` set al \<and> (\<exists>xs'. lru_wf c' xs')"
  proof (cases "capacity c \<le> int (length (cache c)) \<and> xs \<noteq> []")
    case True
    then obtain lk where "cache c' = AList.delete lk (cache c) @ [(k, fresh c)]"
      "lru_wf c' (fresh c # butlast xs)"
      using c'(2) unfolding if_P[OF True] by blast
    then show ?thesis using k0 dom_delete_subset[of lk "cache c"] by blast
  next
    case False
    then show ?thesis using c'(2) k0 unfolding if_not_P[OF False] by blast
  qed
  then obtain al xs' where al: "cache c' = al @ [(k, fresh c)]" "k \<notin> fst ` set al" "lru_wf c' xs'"
    by blast
  have "map_of (al @ [(k, fresh c)]) k = Some (fresh c)"
    using al(2) by (simp add: map_add_Some_iff map_of_eq_None_iff)
  then have "map_of (lru_items c') k = Some (Some v)"
    using al(1) c'(5) by (simp add: map_of_lru_items)
  then show ?thesis using c'(1,3,4) al(3) by blast
next
  case (Some n)
  obtain h2 where h2: "LRUCache_put k v c = Inr (c\<lparr>heap := h2\<rparr>)"
    "lru_wf (c\<lparr>heap := h2\<rparr>) (n # remove1 n xs)"
    "\<forall>a. node_value (h2 a) = (if a = n then Some v else node_value (heap c a))"
    using LRUCache_put_hit[OF w Some, of v] by blast
  have "map_of (lru_items (c\<lparr>heap := h2\<rparr>)) k = Some (Some v)"
    using Some h2(3) by (simp add: map_of_lru_items)
  then show ?thesis using h2(1,2) by force
qed

lemma LRUCache_get_wf:
  assumes w: "lru_wf c xs"
  shows "\<exists>c' xs'. LRUCache_get k c = Inr (Option.bind (map_of (lru_items c) k) id, c') \<and> lru_wf c' xs'
            \<and> capacity c' = capacity c \<and> dll c' = dll c \<and> lru_items c' = lru_items c"
proof (cases "map_of (cache c) k")
  case None
  then show ?thesis using w by (auto simp: LRUCache_get_miss map_of_lru_items)
next
  case (Some n)
  obtain h2 where h2: "LRUCache_get k c = Inr (node_value (heap c n), c\<lparr>heap := h2\<rparr>)"
    "lru_wf (c\<lparr>heap := h2\<rparr>) (n # remove1 n xs)"
    "\<forall>a. node_value (h2 a) = node_value (heap c a)"
    using LRUCache_get_hit[OF w Some] by blast
  have "lru_items (c\<lparr>heap := h2\<rparr>) = lru_items c" using h2(3) by (simp add: lru_items_def)
  then show ?thesis using h2(1,2) Some by (force simp: map_of_lru_items)
qed

lemma LRUCache_delete_wf:
  assumes w: "lru_wf c xs"
  shows "\<exists>c' xs'. LRUCache_delete k c = Inr (k \<in> fst ` set (cache c), c') \<and> lru_wf c' xs'
            \<and> capacity c' = capacity c \<and> dll c' = dll c
            \<and> lru_items c' = AList.delete k (lru_items c)"
proof (cases "map_of (cache c) k")
  case None
  then have k0: "k \<notin> fst ` set (cache c)" by (simp add: map_of_eq_None_iff)
  then have "k \<notin> fst ` set (lru_items c)" by (force simp: lru_items_def)
  then show ?thesis using w None k0 by (auto simp: LRUCache_delete_miss)
next
  case (Some n)
  obtain h1 where h1: "LRUCache_delete k c = Inr (True, c\<lparr>heap := h1, cache := AList.delete k (cache c)\<rparr>)"
    "lru_wf (c\<lparr>heap := h1, cache := AList.delete k (cache c)\<rparr>) (remove1 n xs)"
    "\<forall>a. node_value (h1 a) = node_value (heap c a)"
    using LRUCache_delete_hit[OF w Some] by blast
  have k1: "k \<in> fst ` set (cache c)" using Some by (metis domI dom_map_of_conv_image_fst)
  have "lru_items (c\<lparr>heap := h1, cache := AList.delete k (cache c)\<rparr>) = AList.delete k (lru_items c)"
    by (rule lru_items_same_values) (use h1(3) in simp_all)
  then show ?thesis using h1(1,2) k1 by force
qed

lemma recover_lines_wf:
  assumes "lru_wf c xs" and "recover_lines ls c = Inr c'"
  shows "\<exists>xs'. lru_wf c' xs'"
  using assms
proof (induction ls arbitrary: c xs)
  case Nil
  then show ?case by auto
next
  case (Cons line ls)
  obtain action k v where sp: "str_split (CHR ''|'') (strip line) = [action, k, v]"
    using Cons.prems(2) by (auto split: list.splits)
  show ?case
  proof (cases "action = ''SET''")
    case True
    obtain c1 xs1 where p: "LRUCache_put k v c = Inr c1" "lru_wf c1 xs1"
      using LRUCache_put_wf[OF Cons.prems(1)] by blast
    then have "recover_lines ls c1 = Inr c'" using Cons.prems(2) sp True by simp
    then show ?thesis using Cons.IH[OF p(2)] by blast
  next
    case False
    show ?thesis
    proof (cases "action = ''DEL''")
      case True
      obtain c1 xs1 where p: "LRUCache_delete k c = Inr (k \<in> fst ` set (cache c), c1)" "lru_wf c1 xs1"
        using LRUCache_delete_wf[OF Cons.prems(1)] by blast
      then have "recover_lines ls c1 = Inr c'" using Cons.prems(2) sp True by simp
      then show ?thesis using Cons.IH[OF p(2)] by blast
    next
      case F2: False
      have "recover_lines ls c = Inr c'" using Cons.prems(2) sp False F2 by simp
      then show ?thesis using Cons.IH[OF Cons.prems(1)] by blast
    qed
  qed
qed

lemma KeyValueStore_init_wf:
  assumes "KeyValueStore_init cap f = Inr s"
  shows "\<exists>xs. lru_wf (kv_cache s) xs"
proof (cases f)
  case None
  then have "kv_cache s = LRUCache cap"
    using assms by (auto simp: KeyValueStore_init_def KeyValueStore_recover_def)
  then show ?thesis using lru_wf_init by metis
next
  case (Some content)
  then have "recover_lines (file_lines [] content) (LRUCache cap) = Inr (kv_cache s)"
    using assms by (auto simp: KeyValueStore_init_def KeyValueStore_recover_def split: sum.splits)
  then show ?thesis using recover_lines_wf[OF lru_wf_init] by blast
qed

lemma kv_step_wf:
  assumes "lru_wf (kv_cache s) xs"
  shows "\<exists>xs'. lru_wf (kv_cache (snd (kv_step d op s))) xs'"
proof (cases op)
  case (Set k v)
  obtain c1 xs1 where "LRUCache_put k v (kv_cache s) = Inr c1" "lru_wf c1 xs1"
    using LRUCache_put_wf[OF assms] by blast
  then show ?thesis using Set
    by (auto simp: kv_step_def KeyValueStore_set_def KeyValueStore_log_def split: sum.splits)
next
  case (Get k)
  obtain c1 xs1 where "LRUCache_get k (kv_cache s) = Inr (Option.bind (map_of (lru_items (kv_cache s)) k) id, c1)"
    "lru_wf c1 xs1"
    using LRUCache_get_wf[OF assms] by blast
  then show ?thesis using Get by (auto simp: kv_step_def KeyValueStore_get_def)
next
  case (Delete k)
  obtain c1 xs1 where "LRUCache_delete k (kv_cache s) = Inr (k \<in> fst ` set (cache (kv_cache s)), c1)"
    "lru_wf c1 xs1"
    using LRUCache_delete_wf[OF assms] by blast
  then show ?thesis using Delete
    by (auto simp: kv_step_def KeyValueStore_delete_def KeyValueStore_log_def split: sum.splits)
qed

lemma kv_run_wf:
  assumes "lru_wf (kv_cache s) xs"
  shows "\<exists>xs'. lru_wf (kv_cache (snd (kv_run ops s))) xs'"
  using assms
proof (induction ops arbitrary: s xs)
  case Nil
  then show ?case by auto
next
  case (Cons op ops)
  obtain xs1 where "lru_wf (kv_cache (snd (kv_step True op s))) xs1"
    using kv_step_wf[OF Cons.prems] by blast
  from Cons.IH[OF this] show ?case by (auto split: prod.splits)
qed

lemma kv_session_wf:
  assumes "kv_session cap f ops = Inr (rs, s)"
  shows "\<exists>xs. lru_wf (kv_cache s) xs"
proof -
  obtain s0 where s0: "KeyValueStore_init cap f = Inr s0" "kv_run ops s0 = (rs, s)"
    using assms by (auto simp: kv_session_def split: sum.splits)
  obtain xs0 where "lru_wf (kv_cache s0) xs0" using KeyValueStore_init_wf[OF s0(1)] by blast
  from kv_run_wf[OF this, of ops] show ?thesis using s0(2) by simp
qed


subsection \<open>Delete, and failures of the log append\<close>

text \<open>
  Claim C8.  On a well-formed store whose disk accepts the append, \<open>delete(key)\<close>
  returns \<open>True\<close> exactly when the key is in the dictionary.  In that case the entry
  leaves the dictionary, its node leaves the list (the other nodes keep their order),
  the other keys keep their values, and the line \<open>DEL|key|None\<close> is appended to the
  log.  Otherwise the call returns \<open>False\<close> and the store, cache and log alike, is
  exactly as before.
\<close>

theorem C8_delete_semantics:
  assumes "lru_wf (kv_cache s) xs"
  shows "\<exists>s'. KeyValueStore_delete True k s = (Inr (k \<in> fst ` set (cache (kv_cache s))), s')
          \<and> (if k \<in> fst ` set (cache (kv_cache s))
              then (\<exists>n. map_of (cache (kv_cache s)) k = Some n \<and> n \<in> set xs
                        \<and> cache (kv_cache s') = AList.delete k (cache (kv_cache s))
                        \<and> list_nodes (kv_cache s') = Some (remove1 n xs))
                   \<and> k \<notin> fst ` set (cache (kv_cache s'))
                   \<and> lru_items (kv_cache s') = AList.delete k (lru_items (kv_cache s))
                   \<and> kv_log s' = Some ((case kv_log s of None \<Rightarrow> [] | Some old \<Rightarrow> old)
                                        @ log_line ''DEL'' k None)
              else s' = s)"
proof (cases "map_of (cache (kv_cache s)) k")
  case None
  then have k0: "k \<notin> fst ` set (cache (kv_cache s))" by (simp add: map_of_eq_None_iff)
  show ?thesis using None k0 by (simp add: KeyValueStore_delete_def LRUCache_delete_miss)
next
  case (Some n)
  let ?c = "kv_cache s"
  obtain h1 where h1: "LRUCache_delete k ?c = Inr (True, ?c\<lparr>heap := h1, cache := AList.delete k (cache ?c)\<rparr>)"
    "lru_wf (?c\<lparr>heap := h1, cache := AList.delete k (cache ?c)\<rparr>) (remove1 n xs)"
    "\<forall>a. node_value (h1 a) = node_value (heap ?c a)"
    using LRUCache_delete_hit[OF assms Some] by blast
  have k1: "k \<in> fst ` set (cache ?c)" using Some by (metis domI dom_map_of_conv_image_fst)
  have n: "n \<in> set xs" using index_node_in_list[OF assms Some] by simp
  define s' where "s' = s\<lparr>kv_cache := ?c\<lparr>heap := h1, cache := AList.delete k (cache ?c)\<rparr>,
                          kv_log := Some ((case kv_log s of None \<Rightarrow> [] | Some old \<Rightarrow> old)
                                        @ log_line ''DEL'' k None)\<rparr>"
  have e: "KeyValueStore_delete True k s = (Inr True, s')"
    by (simp add: KeyValueStore_delete_def h1(1) KeyValueStore_log_def s'_def)
  have i: "lru_items (kv_cache s') = AList.delete k (lru_items ?c)"
    by (rule lru_items_same_values) (use h1(3) in \<open>simp_all add: s'_def\<close>)
  have l: "list_nodes (kv_cache s') = Some (remove1 n xs)"
    using lru_wf_list_nodes(1)[OF h1(2)] by (simp add: s'_def)
  have nk: "k \<notin> fst ` set (cache (kv_cache s'))"
    by (simp add: s'_def delete_notin_dom)
  have c: "cache (kv_cache s') = AList.delete k (cache ?c)" by (simp add: s'_def)
  have lg: "kv_log s' = Some ((case kv_log s of None \<Rightarrow> [] | Some old \<Rightarrow> old) @ log_line ''DEL'' k None)"
    by (simp add: s'_def)
  show ?thesis
    using e k1 Some n c l nk i lg by (intro exI[of _ s']) (simp only: if_P, blast)
qed

theorem C8_delete_semantics_witness:
  "lru_wf (kv_cache (snd (KeyValueStore_set True ''a'' ''1'' \<lparr>kv_cache = LRUCache 2, kv_log = None\<rparr>))) [2]
   \<and> (\<exists>s'. KeyValueStore_delete True ''a''
              (snd (KeyValueStore_set True ''a'' ''1'' \<lparr>kv_cache = LRUCache 2, kv_log = None\<rparr>))
            = (Inr True, s')
          \<and> cache (kv_cache s') = [] \<and> list_nodes (kv_cache s') = Some []
          \<and> kv_log s' = Some (''SET|a|1'' @ [CHR 0x0A] @ ''DEL|a|None'' @ [CHR 0x0A]))
   \<and> (\<exists>s'. KeyValueStore_delete True ''b''
              (snd (KeyValueStore_set True ''a'' ''1'' \<lparr>kv_cache = LRUCache 2, kv_log = None\<rparr>))
            = (Inr False, s')
          \<and> s' = snd (KeyValueStore_set True ''a'' ''1'' \<lparr>kv_cache = LRUCache 2, kv_log = None\<rparr>))"
proof -
  let ?s = "snd (KeyValueStore_set True ''a'' ''1'' \<lparr>kv_cache = LRUCache 2, kv_log = None\<rparr>)"
  have w: "lru_wf (kv_cache ?s) [2]" by code_simp
  have c: "cache (kv_cache ?s) = [(''a'', 2)]" "kv_log ?s = Some (''SET|a|1'' @ [CHR 0x0A])"
    by code_simp+
  show ?thesis
    using w C8_delete_semantics[OF w, of "''a''"] C8_delete_semantics[OF w, of "''b''"]
    unfolding c by (auto simp: log_line_def)
qed

lemma kv_set_delete_failed_append:
  assumes "lru_wf (kv_cache s) xs"
  shows "(\<exists>s'. KeyValueStore_set False k v s = (Inl OSError, s')
             \<and> kv_log s' = kv_log s
             \<and> map_of (lru_items (kv_cache s')) k = Some (Some v)
             \<and> fst (KeyValueStore_get k s') = Inr (Some v))
         \<and> (if k \<in> fst ` set (cache (kv_cache s))
             then (\<exists>s'. KeyValueStore_delete False k s = (Inl OSError, s')
                      \<and> kv_log s' = kv_log s
                      \<and> map_of (lru_items (kv_cache s')) k = None
                      \<and> fst (KeyValueStore_get k s') = Inr None)
             else KeyValueStore_delete False k s = (Inr False, s))"
proof -
  obtain c1 xs1 where p: "LRUCache_put k v (kv_cache s) = Inr c1" "lru_wf c1 xs1"
    "map_of (lru_items c1) k = Some (Some v)"
    using LRUCache_put_wf[OF assms] by blast
  obtain c2 xs2 where g: "LRUCache_get k c1 = Inr (Option.bind (map_of (lru_items c1) k) id, c2)"
    using LRUCache_get_wf[OF p(2)] by blast
  have A: "\<exists>s'. KeyValueStore_set False k v s = (Inl OSError, s')
             \<and> kv_log s' = kv_log s
             \<and> map_of (lru_items (kv_cache s')) k = Some (Some v)
             \<and> fst (KeyValueStore_get k s') = Inr (Some v)"
    using p g by (simp add: KeyValueStore_set_def KeyValueStore_log_def KeyValueStore_get_def)
  obtain c3 xs3 where d: "LRUCache_delete k (kv_cache s) = Inr (k \<in> fst ` set (cache (kv_cache s)), c3)"
    "lru_wf c3 xs3" "lru_items c3 = AList.delete k (lru_items (kv_cache s))"
    using LRUCache_delete_wf[OF assms] by blast
  obtain c4 xs4 where g4: "LRUCache_get k c3 = Inr (Option.bind (map_of (lru_items c3) k) id, c4)"
    using LRUCache_get_wf[OF d(2)] by blast
  have m: "map_of (lru_items c3) k = None" using d(3) by (simp add: delete_conv')
  have B: "if k \<in> fst ` set (cache (kv_cache s))
             then (\<exists>s'. KeyValueStore_delete False k s = (Inl OSError, s')
                      \<and> kv_log s' = kv_log s
                      \<and> map_of (lru_items (kv_cache s')) k = None
                      \<and> fst (KeyValueStore_get k s') = Inr None)
             else KeyValueStore_delete False k s = (Inr False, s)"
  proof (cases "k \<in> fst ` set (cache (kv_cache s))")
    case True
    then show ?thesis using d(1) g4 m
      by (simp add: KeyValueStore_delete_def KeyValueStore_log_def KeyValueStore_get_def)
  next
    case False
    then have "map_of (cache (kv_cache s)) k = None" by (simp add: map_of_eq_None_iff)
    then show ?thesis using False
      by (simp add: KeyValueStore_delete_def LRUCache_delete_miss)
  qed
  show ?thesis using A B by blast
qed

subsection \<open>The line format of the log\<close>

text \<open>
  Claim C2, evaluated on \<open>KeyValueStore\<close>.  A log whose second line is not of the
  form \<open>action|key|value\<close>, and a log whose last line was cut short, make \<open>_recover\<close>
  raise \<open>ValueError\<close>: the constructor fails and the record after the bad line is never
  read.  The same log without the bad line recovers both records.
\<close>

theorem C2_recover_raises_on_malformed_line:
  "(case KeyValueStore_init 2
           (Some (''SET|a|1'' @ [CHR 0x0A] @ ''garbage'' @ [CHR 0x0A] @ ''SET|b|2'' @ [CHR 0x0A])) of
      Inl e \<Rightarrow> e = ValueError
    | Inr s \<Rightarrow> False)
   \<and> (case KeyValueStore_init 2 (Some (''SET|a|1'' @ [CHR 0x0A] @ ''SET|b'')) of
      Inl e \<Rightarrow> e = ValueError
    | Inr s \<Rightarrow> False)
   \<and> (case KeyValueStore_init 2 (Some (''SET|a|1'' @ [CHR 0x0A] @ ''SET|b|2'' @ [CHR 0x0A])) of
         Inl e \<Rightarrow> False
       | Inr s \<Rightarrow> lru_items (kv_cache s) = [(''a'', Some ''1''), (''b'', Some ''2'')])"
  by code_simp

text \<open>
  Claim C9.  \<open>set\<close> accepts a key or a value that contains the field separator or a
  line break and writes it to the log unescaped.  A later \<open>_recover\<close> of that log raises
  \<open>ValueError\<close> for the key \<open>a|b\<close>, for the value \<open>1|2\<close> and for a key with a line
  break; for a value with a line break followed by text that looks like a record,
  \<open>_recover\<close> raises nothing and rebuilds a different cache: the value is cut at the line
  break and a key that was never set appears.
\<close>

theorem C9_line_format_injectable:
  "(case kv_session 2 None [Set ''a|b'' ''1''] of
      Inl e \<Rightarrow> False
    | Inr (rs, s) \<Rightarrow>
        rs = [Inr SetDone] \<and> kv_log s = Some (''SET|a|b|1'' @ [CHR 0x0A])
        \<and> (case KeyValueStore_init 2 (kv_log s) of Inl e \<Rightarrow> e = ValueError | Inr s' \<Rightarrow> False))
   \<and> (case kv_session 2 None [Set ''a'' ''1|2''] of
      Inl e \<Rightarrow> False
    | Inr (rs, s) \<Rightarrow>
        rs = [Inr SetDone] \<and> (case KeyValueStore_init 2 (kv_log s) of Inl e \<Rightarrow> e = ValueError | Inr s' \<Rightarrow> False))
   \<and> (case kv_session 2 None [Set (''a'' @ [CHR 0x0A] @ ''b'') ''1''] of
      Inl e \<Rightarrow> False
    | Inr (rs, s) \<Rightarrow>
        rs = [Inr SetDone] \<and> (case KeyValueStore_init 2 (kv_log s) of Inl e \<Rightarrow> e = ValueError | Inr s' \<Rightarrow> False))
   \<and> (case kv_session 2 None [Set ''k'' (''x'' @ [CHR 0x0A] @ ''SET|evil|1'')] of
      Inl e \<Rightarrow> False
    | Inr (rs, s) \<Rightarrow>
        rs = [Inr SetDone]
        \<and> lru_items (kv_cache s) = [(''k'', Some (''x'' @ [CHR 0x0A] @ ''SET|evil|1''))]
        \<and> (case KeyValueStore_init 2 (kv_log s) of
              Inl e \<Rightarrow> False
            | Inr s' \<Rightarrow> lru_items (kv_cache s') = [(''k'', Some ''x''), (''evil'', Some ''1'')]))"
  by code_simp

subsection \<open>Replaying the log\<close>

lemma file_lines_line:
  "CHR 0x0A \<notin> set l \<Longrightarrow> CHR 0x0D \<notin> set l
   \<Longrightarrow> file_lines cur (l @ CHR 0x0A # rest) = (cur @ l @ [CHR 0x0A]) # file_lines [] rest"
  by (induction l arbitrary: cur) auto

lemma str_split_last: "sep \<notin> set a \<Longrightarrow> str_split sep a = [a]"
  by (induction a) auto

lemma str_split_field:
  "sep \<notin> set a \<Longrightarrow> str_split sep (a @ sep # rest) = a # str_split sep rest"
  by (induction a) auto

lemma strip_line:
  assumes "e \<noteq> []" and "\<not> isspace (hd e)" and "\<not> isspace (last e)"
  shows "strip (e @ [CHR 0x0A]) = e"
proof -
  have nl: "isspace (CHR 0x0A)" by (simp add: isspace_def)
  have 1: "dropWhile isspace (e @ [CHR 0x0A]) = e @ [CHR 0x0A]"
    using assms(1,2) by (cases e) auto
  have r: "rev e = last e # rev (butlast e)"
    using assms(1) by (cases e rule: rev_cases) simp_all
  have "dropWhile isspace (last e # rev (butlast e)) = last e # rev (butlast e)"
    using assms(3) by simp
  then have 2: "dropWhile isspace (rev e) = rev e" by (simp only: r[symmetric])
  show ?thesis unfolding strip_def 1 using nl 2 by simp
qed

lemma parse_set_line:
  assumes "plain k" and "plain v" and "v = [] \<or> \<not> isspace (last v)"
  shows "str_split (CHR ''|'') (strip (log_line ''SET'' k (Some v))) = [''SET'', k, v]"
proof -
  let ?e = "''SET|'' @ k @ ''|'' @ v"
  have l: "\<not> isspace (last ?e)" using assms(3) by (auto simp: isspace_def)
  have "strip (?e @ [CHR 0x0A]) = ?e"
    by (rule strip_line) (use l in \<open>simp_all add: isspace_def\<close>)
  then have s: "strip (log_line ''SET'' k (Some v)) = ?e" by (simp add: log_line_def)
  have "str_split (CHR ''|'') (k @ CHR ''|'' # v) = [k, v]"
    using assms(1,2) by (simp add: str_split_field str_split_last plain_def)
  then have "str_split (CHR ''|'') (''SET'' @ CHR ''|'' # (k @ CHR ''|'' # v)) = [''SET'', k, v]"
    using str_split_field[of "CHR ''|''" "''SET''" "k @ CHR ''|'' # v"] by simp
  then show ?thesis using s by simp
qed

lemma parse_del_line:
  assumes "plain k"
  shows "str_split (CHR ''|'') (strip (log_line ''DEL'' k None)) = [''DEL'', k, ''None'']"
proof -
  let ?e = "''DEL|'' @ k @ ''|None''"
  have "strip (?e @ [CHR 0x0A]) = ?e"
    by (rule strip_line) (simp_all add: isspace_def)
  then have s: "strip (log_line ''DEL'' k None) = ?e" by (simp add: log_line_def)
  have "str_split (CHR ''|'') (k @ CHR ''|'' # ''None'') = [k, ''None'']"
    using assms by (simp add: str_split_field str_split_last plain_def)
  then have "str_split (CHR ''|'') (''DEL'' @ CHR ''|'' # (k @ CHR ''|'' # ''None'')) = [''DEL'', k, ''None'']"
    using str_split_field[of "CHR ''|''" "''DEL''" "k @ CHR ''|'' # ''None''"] by simp
  then show ?thesis using s by simp
qed

lemma logged_cases:
  "logged op r = []
   \<or> (\<exists>k v. op = Set k v \<and> r = Inr SetDone \<and> logged op r = [Put k v])
   \<or> (\<exists>k. op = Delete k \<and> r = Inr (DeleteDone True) \<and> logged op r = [Remove k])"
  by (induction op r rule: logged.induct) auto

lemma recover_is_recover_lines:
  "KeyValueStore_recover f c = recover_lines (file_lines [] (file_text f)) c"
  by (cases f) (simp_all add: KeyValueStore_recover_def file_text_def)

lemma kv_step_log:
  "file_text (kv_log (snd (kv_step True op s)))
   = file_text (kv_log s) @ concat (map entry_text (logged op (fst (kv_step True op s))))"
proof (cases op)
  case (Set k v)
  then show ?thesis
    by (auto simp: kv_step_def KeyValueStore_set_def KeyValueStore_log_def file_text_def
        split: sum.splits option.splits)
next
  case (Get k)
  then show ?thesis
    by (auto simp: kv_step_def KeyValueStore_get_def split: sum.splits prod.splits)
next
  case (Delete k)
  then show ?thesis
    by (auto simp: kv_step_def KeyValueStore_delete_def KeyValueStore_log_def file_text_def
        split: sum.splits option.splits prod.splits)
qed

lemma kv_run_log:
  "file_text (kv_log (snd (kv_run ops s)))
   = file_text (kv_log s) @ concat (map entry_text (trace ops s))"
proof (induction ops arbitrary: s)
  case Nil
  then show ?case by simp
next
  case (Cons op ops)
  have "snd (kv_run (op # ops) s) = snd (kv_run ops (snd (kv_step True op s)))"
    by (simp split: prod.splits)
  then show ?case using Cons.IH[of "snd (kv_step True op s)"] kv_step_log[of op s] by simp
qed

lemma lru_run_append:
  "lru_run (a @ b) c = (case lru_run a c of Inl e \<Rightarrow> Inl e | Inr c' \<Rightarrow> lru_run b c')"
  by (induction a arbitrary: c) (auto split: sum.splits)

lemma replay_trace:
  assumes "list_all log_safe ops"
  shows "recover_lines (file_lines [] (concat (map entry_text (trace ops s)))) c
         = lru_run (trace ops s) c"
  using assms
proof (induction ops arbitrary: s c)
  case Nil
  then show ?case by simp
next
  case (Cons op ops)
  let ?r = "fst (kv_step True op s)" and ?s1 = "snd (kv_step True op s)"
  let ?rest = "concat (map entry_text (trace ops ?s1))"
  have IH: "\<And>c. recover_lines (file_lines [] ?rest) c = lru_run (trace ops ?s1) c"
    using Cons.IH Cons.prems by simp
  consider (none) "logged op ?r = []"
    | (put) k v where "op = Set k v" "logged op ?r = [Put k v]"
    | (del) k where "op = Delete k" "logged op ?r = [Remove k]"
    using logged_cases[of op ?r] by blast
  then show ?case
  proof cases
    case none
    then show ?thesis using IH by simp
  next
    case put
    then have safe: "plain k" "plain v" "v = [] \<or> \<not> isspace (last v)"
      using Cons.prems by simp_all
    let ?e = "''SET|'' @ k @ ''|'' @ v"
    have nn: "CHR 0x0A \<notin> set ?e" "CHR 0x0D \<notin> set ?e" using safe by (auto simp: plain_def)
    have t: "concat (map entry_text (trace (op # ops) s)) = ?e @ CHR 0x0A # ?rest"
      using put by (simp add: log_line_def)
    have fl: "file_lines [] (?e @ CHR 0x0A # ?rest) = ([] @ ?e @ [CHR 0x0A]) # file_lines [] ?rest"
      using nn by (rule file_lines_line)
    have ll: "[] @ ?e @ [CHR 0x0A] = log_line ''SET'' k (Some v)" by (simp add: log_line_def)
    show ?thesis
      unfolding t fl ll using parse_set_line[OF safe] IH put
      by (simp split: sum.splits)
  next
    case del
    then have safe: "plain k" using Cons.prems by simp
    let ?e = "''DEL|'' @ k @ ''|None''"
    have nn: "CHR 0x0A \<notin> set ?e" "CHR 0x0D \<notin> set ?e" using safe by (auto simp: plain_def)
    have t: "concat (map entry_text (trace (op # ops) s)) = ?e @ CHR 0x0A # ?rest"
      using del by (simp add: log_line_def)
    have fl: "file_lines [] (?e @ CHR 0x0A # ?rest) = ([] @ ?e @ [CHR 0x0A]) # file_lines [] ?rest"
      using nn by (rule file_lines_line)
    have ll: "[] @ ?e @ [CHR 0x0A] = log_line ''DEL'' k None" by (simp add: log_line_def)
    show ?thesis
      unfolding t fl ll using parse_del_line[OF safe] IH del
      by (simp split: sum.splits prod.splits)
  qed
qed

lemma kv_step_replay_exact:
  assumes "case op of Get k \<Rightarrow> k \<notin> fst ` set (cache (kv_cache s)) | _ \<Rightarrow> True"
  shows "lru_run (logged op (fst (kv_step True op s))) (kv_cache s)
         = Inr (kv_cache (snd (kv_step True op s)))"
proof (cases op)
  case (Set k v)
  then show ?thesis
    by (auto simp: kv_step_def KeyValueStore_set_def KeyValueStore_log_def split: sum.splits)
next
  case (Get k)
  then have "map_of (cache (kv_cache s)) k = None" using assms by (simp add: map_of_eq_None_iff)
  then show ?thesis using Get
    by (simp add: kv_step_def KeyValueStore_get_def LRUCache_get_miss)
next
  case (Delete k)
  show ?thesis
  proof (cases "LRUCache_delete k (kv_cache s)")
    case (Inl e)
    then show ?thesis using Delete by (simp add: kv_step_def KeyValueStore_delete_def)
  next
    case (Inr p)
    obtain b c' where p: "p = (b, c')" by (cases p)
    show ?thesis
    proof (cases b)
      case True
      then show ?thesis using Delete Inr p
        by (simp add: kv_step_def KeyValueStore_delete_def KeyValueStore_log_def)
    next
      case False
      then have "c' = kv_cache s" using Inr p
        by (auto simp: LRUCache_delete_def split: option.splits sum.splits)
      then show ?thesis using Delete Inr p False
        by (simp add: kv_step_def KeyValueStore_delete_def)
    qed
  qed
qed

lemma kv_run_replay_exact:
  assumes "no_get_hit ops s"
  shows "lru_run (trace ops s) (kv_cache s) = Inr (kv_cache (snd (kv_run ops s)))"
  using assms
proof (induction ops arbitrary: s)
  case Nil
  then show ?case by simp
next
  case (Cons op ops)
  have 1: "lru_run (logged op (fst (kv_step True op s))) (kv_cache s)
           = Inr (kv_cache (snd (kv_step True op s)))"
    using kv_step_replay_exact Cons.prems by simp
  have 2: "lru_run (trace ops (snd (kv_step True op s))) (kv_cache (snd (kv_step True op s)))
           = Inr (kv_cache (snd (kv_run ops (snd (kv_step True op s)))))"
    using Cons.IH Cons.prems by simp
  show ?case using 1 2 by (simp add: lru_run_append split: prod.splits)
qed

lemma same_content_items: "same_content c c' \<Longrightarrow> lru_items c = lru_items c'"
  by (simp add: same_content_def lru_items_def)

lemma put_same_content:
  assumes w: "lru_wf c xs" and w': "lru_wf c' xs'" and sc: "same_content c c'"
    and ne: "k \<in> fst ` set (cache c) \<or> int (length (cache c)) < capacity c"
  shows "\<exists>c1 c1' xs1 xs1'. LRUCache_put k v c = Inr c1 \<and> LRUCache_put k v c' = Inr c1'
           \<and> same_content c1 c1' \<and> lru_wf c1 xs1 \<and> lru_wf c1' xs1'"
proof (cases "map_of (cache c) k")
  case None
  then have lt: "int (length (cache c)) < capacity c" using ne by (simp add: map_of_eq_None_iff)
  have None': "map_of (cache c') k = None" using None sc by (simp add: same_content_def)
  have lt': "int (length (cache c')) < capacity c'" using lt sc by (simp add: same_content_def)
  have n1: "\<not> (capacity c \<le> int (length (cache c)) \<and> xs \<noteq> [])" using lt by simp
  have n1': "\<not> (capacity c' \<le> int (length (cache c')) \<and> xs' \<noteq> [])" using lt' by simp
  obtain c1 where c1: "LRUCache_put k v c = Inr c1"
    "lru_wf c1 (fresh c # xs) \<and> cache c1 = cache c @ [(k, fresh c)]"
    "capacity c1 = capacity c" "dll c1 = dll c" "fresh c1 = Suc (fresh c)"
    "\<forall>a. node_value (heap c1 a) = (if a = fresh c then Some v else node_value (heap c a))"
    using LRUCache_put_miss[OF w None, of v] unfolding if_not_P[OF n1] by blast
  obtain c1' where c1': "LRUCache_put k v c' = Inr c1'"
    "lru_wf c1' (fresh c' # xs') \<and> cache c1' = cache c' @ [(k, fresh c')]"
    "capacity c1' = capacity c'" "dll c1' = dll c'" "fresh c1' = Suc (fresh c')"
    "\<forall>a. node_value (heap c1' a) = (if a = fresh c' then Some v else node_value (heap c' a))"
    using LRUCache_put_miss[OF w' None', of v] unfolding if_not_P[OF n1'] by blast
  have "same_content c1 c1'"
    using sc c1(2-6) c1'(2-6) by (simp add: same_content_def)
  then show ?thesis using c1(1,2) c1'(1,2) by blast
next
  case (Some n)
  then have Some': "map_of (cache c') k = Some n" using sc by (simp add: same_content_def)
  obtain h2 where h2: "LRUCache_put k v c = Inr (c\<lparr>heap := h2\<rparr>)"
    "lru_wf (c\<lparr>heap := h2\<rparr>) (n # remove1 n xs)"
    "\<forall>a. node_value (h2 a) = (if a = n then Some v else node_value (heap c a))"
    using LRUCache_put_hit[OF w Some, of v] by blast
  obtain h2' where h2': "LRUCache_put k v c' = Inr (c'\<lparr>heap := h2'\<rparr>)"
    "lru_wf (c'\<lparr>heap := h2'\<rparr>) (n # remove1 n xs')"
    "\<forall>a. node_value (h2' a) = (if a = n then Some v else node_value (heap c' a))"
    using LRUCache_put_hit[OF w' Some', of v] by blast
  have "same_content (c\<lparr>heap := h2\<rparr>) (c'\<lparr>heap := h2'\<rparr>)"
    using sc h2(3) h2'(3) by (simp add: same_content_def)
  then show ?thesis using h2(1,2) h2'(1,2) by blast
qed

lemma delete_same_content:
  assumes w: "lru_wf c xs" and w': "lru_wf c' xs'" and sc: "same_content c c'"
  shows "\<exists>c1 c1' xs1 xs1'. LRUCache_delete k c = Inr (k \<in> fst ` set (cache c), c1)
           \<and> LRUCache_delete k c' = Inr (k \<in> fst ` set (cache c), c1')
           \<and> same_content c1 c1' \<and> lru_wf c1 xs1 \<and> lru_wf c1' xs1'
           \<and> (k \<notin> fst ` set (cache c) \<longrightarrow> c1 = c)"
proof (cases "map_of (cache c) k")
  case None
  then have None': "map_of (cache c') k = None" using sc by (simp add: same_content_def)
  have "k \<notin> fst ` set (cache c)" using None by (simp add: map_of_eq_None_iff)
  then show ?thesis using None None' w w' sc by (auto simp: LRUCache_delete_miss)
next
  case (Some n)
  then have Some': "map_of (cache c') k = Some n" using sc by (simp add: same_content_def)
  have k1: "k \<in> fst ` set (cache c)" using Some by (metis domI dom_map_of_conv_image_fst)
  obtain h1 where h1: "LRUCache_delete k c = Inr (True, c\<lparr>heap := h1, cache := AList.delete k (cache c)\<rparr>)"
    "lru_wf (c\<lparr>heap := h1, cache := AList.delete k (cache c)\<rparr>) (remove1 n xs)"
    "\<forall>a. node_value (h1 a) = node_value (heap c a)"
    using LRUCache_delete_hit[OF w Some] by blast
  obtain h1' where h1': "LRUCache_delete k c' = Inr (True, c'\<lparr>heap := h1', cache := AList.delete k (cache c')\<rparr>)"
    "lru_wf (c'\<lparr>heap := h1', cache := AList.delete k (cache c')\<rparr>) (remove1 n xs')"
    "\<forall>a. node_value (h1' a) = node_value (heap c' a)"
    using LRUCache_delete_hit[OF w' Some'] by blast
  have "same_content (c\<lparr>heap := h1, cache := AList.delete k (cache c)\<rparr>)
          (c'\<lparr>heap := h1', cache := AList.delete k (cache c')\<rparr>)"
    using sc h1(3) h1'(3) by (simp add: same_content_def)
  then show ?thesis using h1(1,2) h1'(1,2) k1 by auto
qed

lemma get_same_content:
  assumes w: "lru_wf c xs" and sc: "same_content c c'"
  shows "\<exists>r c1 xs1. LRUCache_get k c = Inr (r, c1) \<and> same_content c1 c' \<and> lru_wf c1 xs1"
proof (cases "map_of (cache c) k")
  case None
  then show ?thesis using w sc by (auto simp: LRUCache_get_miss)
next
  case (Some n)
  obtain h2 where h2: "LRUCache_get k c = Inr (node_value (heap c n), c\<lparr>heap := h2\<rparr>)"
    "lru_wf (c\<lparr>heap := h2\<rparr>) (n # remove1 n xs)"
    "\<forall>a. node_value (h2 a) = node_value (heap c a)"
    using LRUCache_get_hit[OF w Some] by blast
  have "same_content (c\<lparr>heap := h2\<rparr>) c'" using sc h2(3) by (simp add: same_content_def)
  then show ?thesis using h2(1,2) by blast
qed

lemma kv_step_replay_content:
  assumes w: "lru_wf (kv_cache s) xs" and w': "lru_wf c' xs'" and sc: "same_content (kv_cache s) c'"
    and ne: "case op of
               Set k v \<Rightarrow> k \<in> fst ` set (cache (kv_cache s))
                          \<or> int (length (cache (kv_cache s))) < capacity (kv_cache s)
             | _ \<Rightarrow> True"
  shows "\<exists>c1' xs1 xs1'. lru_run (logged op (fst (kv_step True op s))) c' = Inr c1'
           \<and> same_content (kv_cache (snd (kv_step True op s))) c1'
           \<and> lru_wf (kv_cache (snd (kv_step True op s))) xs1 \<and> lru_wf c1' xs1'"
proof (cases op)
  case (Set k v)
  then have "k \<in> fst ` set (cache (kv_cache s)) \<or> int (length (cache (kv_cache s))) < capacity (kv_cache s)"
    using ne by simp
  from put_same_content[OF w w' sc this, of v]
  obtain c1 c1' xs1 xs1' where "LRUCache_put k v (kv_cache s) = Inr c1" "LRUCache_put k v c' = Inr c1'"
    "same_content c1 c1'" "lru_wf c1 xs1" "lru_wf c1' xs1'" by blast
  then show ?thesis using Set
    by (auto simp: kv_step_def KeyValueStore_set_def KeyValueStore_log_def)
next
  case (Get k)
  obtain r c1 xs1 where "LRUCache_get k (kv_cache s) = Inr (r, c1)" "same_content c1 c'" "lru_wf c1 xs1"
    using get_same_content[OF w sc] by blast
  then show ?thesis using Get w'
    by (auto simp: kv_step_def KeyValueStore_get_def)
next
  case (Delete k)
  obtain c1 c1' xs1 xs1' where d:
    "LRUCache_delete k (kv_cache s) = Inr (k \<in> fst ` set (cache (kv_cache s)), c1)"
    "LRUCache_delete k c' = Inr (k \<in> fst ` set (cache (kv_cache s)), c1')"
    "same_content c1 c1'" "lru_wf c1 xs1" "lru_wf c1' xs1'"
    "k \<notin> fst ` set (cache (kv_cache s)) \<longrightarrow> c1 = kv_cache s"
    using delete_same_content[OF w w' sc] by blast
  show ?thesis
  proof (cases "k \<in> fst ` set (cache (kv_cache s))")
    case True
    then show ?thesis using Delete d
      by (auto simp: kv_step_def KeyValueStore_delete_def KeyValueStore_log_def)
  next
    case False
    then show ?thesis using Delete d w w' sc
      by (auto simp: kv_step_def KeyValueStore_delete_def)
  qed
qed

lemma kv_run_snd_Cons:
  "snd (kv_run (op # ops) s) = snd (kv_run ops (snd (kv_step True op s)))"
  by (simp split: prod.splits)

lemma kv_run_replay_content:
  assumes "lru_wf (kv_cache s) xs" and "lru_wf c' xs'" and "same_content (kv_cache s) c'"
    and "no_eviction ops s"
  shows "\<exists>c1'. lru_run (trace ops s) c' = Inr c1'
           \<and> same_content (kv_cache (snd (kv_run ops s))) c1'"
  using assms
proof (induction ops arbitrary: s c' xs xs')
  case Nil
  then show ?case by simp
next
  case (Cons op ops)
  let ?s1 = "snd (kv_step True op s)"
  have ne: "case op of
               Set k v \<Rightarrow> k \<in> fst ` set (cache (kv_cache s))
                          \<or> int (length (cache (kv_cache s))) < capacity (kv_cache s)
             | _ \<Rightarrow> True"
    and rest: "no_eviction ops ?s1"
    using Cons.prems(4) by simp_all
  obtain c1' xs1 xs1' where st: "lru_run (logged op (fst (kv_step True op s))) c' = Inr c1'"
    "same_content (kv_cache ?s1) c1'" "lru_wf (kv_cache ?s1) xs1" "lru_wf c1' xs1'"
    using kv_step_replay_content[OF Cons.prems(1,2,3) ne] by blast
  obtain c2' where "lru_run (trace ops ?s1) c1' = Inr c2'"
    "same_content (kv_cache (snd (kv_run ops ?s1))) c2'"
    using Cons.IH[OF st(3,4,2) rest] by blast
  then show ?case using st(1) unfolding kv_run_snd_Cons by (simp add: lru_run_append)
qed

lemma fresh_store_init: "KeyValueStore_init cap None = Inr (fresh_store cap)"
  by (simp add: KeyValueStore_init_def KeyValueStore_recover_def fresh_store_def)


text \<open>
  Claim C1, as stated, fails.  Capacity 2: \<open>set("a","1")\<close>, \<open>set("b","2")\<close>,
  \<open>get("a")\<close>, \<open>set("c","3")\<close>.  The \<open>get\<close> makes \<open>b\<close> the least recently used key,
  so the last \<open>set\<close> evicts \<open>b\<close> and the cache holds \<open>a\<close> and \<open>c\<close>.  The log holds the
  three \<open>SET\<close> lines only; replaying them into an empty cache of the same capacity
  evicts \<open>a\<close> and rebuilds \<open>b\<close> and \<open>c\<close>.
\<close>

theorem C1_counterexample_get_changes_eviction:
  "case kv_session 2 None [Set ''a'' ''1'', Set ''b'' ''2'', Get ''a'', Set ''c'' ''3''] of
     Inl e \<Rightarrow> False
   | Inr (rs, s) \<Rightarrow>
       rs = [Inr SetDone, Inr SetDone, Inr (GetValue (Some ''1'')), Inr SetDone]
       \<and> lru_items (kv_cache s) = [(''a'', Some ''1''), (''c'', Some ''3'')]
       \<and> (case KeyValueStore_recover (kv_log s) (LRUCache 2) of
             Inl e \<Rightarrow> False
           | Inr c' \<Rightarrow> lru_items c' = [(''b'', Some ''2''), (''c'', Some ''3'')])"
  by code_simp

text \<open>
  Claim C1, amended.  Take any sequence of \<open>set\<close>, \<open>get\<close> and \<open>delete\<close> requests whose
  keys and values the line format can carry (no \<open>|\<close>, no line break, no value ending in
  white space), served by a store that started without a log file, and suppose that
  no \<open>get\<close> finds its key in the cache, or that no \<open>set\<close> evicts a key.  Then a store
  initialised from the log file that the run wrote starts without raising and holds
  the same keys, in the same dictionary order, with the same values as the cache at
  the end of the run.
\<close>

theorem C1_wal_round_trip_amended:
  assumes safe: "list_all log_safe ops"
    and run: "no_get_hit ops (fresh_store cap) \<or> no_eviction ops (fresh_store cap)"
  shows "KeyValueStore_init cap None = Inr (fresh_store cap)
         \<and> (\<exists>s'. KeyValueStore_init cap (kv_log (snd (kv_run ops (fresh_store cap)))) = Inr s'
                \<and> kv_log s' = kv_log (snd (kv_run ops (fresh_store cap)))
                \<and> lru_items (kv_cache s') = lru_items (kv_cache (snd (kv_run ops (fresh_store cap)))))"
proof -
  let ?ini = "fresh_store cap" and ?cz = "LRUCache cap :: (string, string) lru_cache"
  let ?s = "snd (kv_run ops ?ini)"
  have c0: "kv_cache ?ini = ?cz" and l0: "file_text (kv_log ?ini) = []"
    by (simp_all add: fresh_store_def file_text_def)
  have "file_text (kv_log ?s) = concat (map entry_text (trace ops ?ini))"
    using kv_run_log[of ops ?ini] l0 by simp
  then have rec: "KeyValueStore_recover (kv_log ?s) ?cz = lru_run (trace ops ?ini) ?cz"
    using replay_trace[OF safe, of ?ini ?cz] by (simp add: recover_is_recover_lines)
  have "\<exists>c'. lru_run (trace ops ?ini) ?cz = Inr c' \<and> lru_items c' = lru_items (kv_cache ?s)"
    using run
  proof
    assume "no_get_hit ops ?ini"
    from kv_run_replay_exact[OF this] show ?thesis using c0 by simp
  next
    assume ne: "no_eviction ops ?ini"
    have w: "lru_wf (kv_cache ?ini) []" using lru_wf_init c0 by simp
    have sc: "same_content (kv_cache ?ini) ?cz" using c0 by (simp add: same_content_def)
    obtain c' where "lru_run (trace ops ?ini) ?cz = Inr c'" "same_content (kv_cache ?s) c'"
      using kv_run_replay_content[OF w lru_wf_init sc ne] by blast
    then show ?thesis using same_content_items by metis
  qed
  then obtain c' where c': "KeyValueStore_recover (kv_log ?s) ?cz = Inr c'"
    "lru_items c' = lru_items (kv_cache ?s)"
    using rec by auto
  have "KeyValueStore_init cap (kv_log ?s) = Inr \<lparr>kv_cache = c', kv_log = kv_log ?s\<rparr>"
    using c'(1) by (simp add: KeyValueStore_init_def)
  then show ?thesis using c'(2) fresh_store_init by simp
qed


theorem C1_wal_round_trip_amended_witness:
  "list_all log_safe [Set ''a'' ''1'', Set ''b'' ''2'', Get ''a'', Delete ''b'', Set ''c'' ''3'']
   \<and> no_eviction [Set ''a'' ''1'', Set ''b'' ''2'', Get ''a'', Delete ''b'', Set ''c'' ''3'']
        (fresh_store 2)
   \<and> (\<exists>s'. KeyValueStore_init 2
              (kv_log (snd (kv_run [Set ''a'' ''1'', Set ''b'' ''2'', Get ''a'', Delete ''b'',
                                    Set ''c'' ''3''] (fresh_store 2)))) = Inr s'
          \<and> lru_items (kv_cache s') = [(''a'', Some ''1''), (''c'', Some ''3'')])
   \<and> list_all log_safe [Set ''a'' ''1'', Set ''b'' ''2'', Get ''z'', Set ''c'' ''3'']
   \<and> no_get_hit [Set ''a'' ''1'', Set ''b'' ''2'', Get ''z'', Set ''c'' ''3''] (fresh_store 2)
   \<and> (\<exists>s'. KeyValueStore_init 2
              (kv_log (snd (kv_run [Set ''a'' ''1'', Set ''b'' ''2'', Get ''z'', Set ''c'' ''3'']
                              (fresh_store 2)))) = Inr s'
          \<and> lru_items (kv_cache s') = [(''b'', Some ''2''), (''c'', Some ''3'')])"
proof -
  let ?A = "[Set ''a'' ''1'', Set ''b'' ''2'', Get ''a'', Delete ''b'', Set ''c'' ''3'']"
  let ?B = "[Set ''a'' ''1'', Set ''b'' ''2'', Get ''z'', Set ''c'' ''3'']"
  have a1: "list_all log_safe ?A" by code_simp
  have a2: "no_eviction ?A (fresh_store 2)" by code_simp
  have a3: "lru_items (kv_cache (snd (kv_run ?A (fresh_store 2)))) = [(''a'', Some ''1''), (''c'', Some ''3'')]"
    by code_simp
  have b1: "list_all log_safe ?B" by code_simp
  have b2: "no_get_hit ?B (fresh_store 2)" by code_simp
  have b3: "lru_items (kv_cache (snd (kv_run ?B (fresh_store 2)))) = [(''b'', Some ''2''), (''c'', Some ''3'')]"
    by code_simp
  show ?thesis
    using C1_wal_round_trip_amended[OF a1, of 2] C1_wal_round_trip_amended[OF b1, of 2]
      a1 a2 a3 b1 b2 b3 by auto
qed

subsection \<open>Recovery and compaction of SimpleAsyncKeyValueStore\<close>

lemma time_time_simps [simp]:
  "time_time clk s = (clk (ss_ticks s), s\<lparr>ss_ticks := Suc (ss_ticks s)\<rparr>)"
  by (simp add: time_time_def)

lemma filter_key_absent:
  "map_of (filter (\<lambda>e. fst e \<noteq> x) es) x = None"
  by (induction es) auto





text \<open>
  An integer \<open>ttl\<close> too large for a float makes \<open>ttl - elapsed\<close> raise \<open>OverflowError\<close>,
  which \<open>_recover\<close> does not catch.
\<close>

lemma recover_line_overflow:
  assumes "n \<noteq> 0" and "f_of_int F n = None"
  shows "recover_line F clk (Decoded (log_entry (JFloat ts) ''SET'' (JStr k) v (JInt n))) (s, w)
         = Inl OverflowError"
  using assms by (simp add: recover_line_def log_entry_def)

text \<open>
  Claim C5 fails in the code.  \<open>set(key, value, ttl=n)\<close> on a new store gives the entry
  the expiry \<open>now + n\<close>.  Let \<open>compact_log\<close> run while the entry has not expired and
  \<open>int(expires_at - time.time())\<close> is \<open>0\<close>, that is with less than one whole second
  left.  Then \<open>max(0, int(...))\<close> is \<open>0\<close> and the loop skips the live entry under the
  comment \<open>Skip expired items\<close>: the compacted log is empty.  The running store still
  returns the value of the key, and a store initialised from the compacted log does not
  hold the key.  The statement holds for every choice of the floating-point operations
  \<open>F\<close>; below it is evaluated for \<open>set("k", "v", ttl=1)\<close> at time 100.0 and
  \<open>compact_log()\<close> at time 100.5.
\<close>

theorem C5_compaction_drops_live_key:
  assumes live: "\<not> expired F (clk (t0 + 2)) (Some (f_add_int F (clk t0) n))"
    and nonzero: "f_truthy F (f_add_int F (clk t0) n)"
    and under_a_second: "f_int F (f_sub F (f_add_int F (clk t0) n) (clk (t0 + 2))) = Inr 0"
    and name: "f_int F (clk (t0 + 3)) = Inr suffix"
    and still_live: "\<not> expired F (clk (t0 + 5)) (Some (f_add_int F (clk t0) n))"
  shows
  "\<exists>s1 s2 s3.
      SimpleStore_set F clk True k v (Some n) (SimpleStore_new cap None t0) = (Inr (), s1)
    \<and> AsyncLRUCache_get_raw (JStr k) (ss_cache s1) = Some (JStr v, Some (f_add_int F (clk t0) n))
    \<and> SimpleStore_compact_log F clk s1 = Inr s2
    \<and> ss_log s2 = Some []
    \<and> fst (SimpleStore_get F clk k s2) = Some (JStr v)
    \<and> SimpleStore_initialize F clk cap (ss_log s2) t1 = Inr (s3, [])
    \<and> AsyncLRUCache_get_raw (JStr k) (ss_cache s3) = None"
  using assms
  by (simp add: SimpleStore_set_def SimpleStore_get_def SimpleStore_new_def
      SimpleStore_log_operation_def SimpleStore_compact_log_def SimpleStore_initialize_def
      SimpleStore_recover_def cache_put_def cache_get_def
      AsyncLRUCache_def AsyncLRUCache_put_def AsyncLRUCache_get_def AsyncLRUCache_get_raw_def
      AsyncLRUCache_get_all_keys_def current_state_def expired_def Let_def
      numeral_2_eq_2 numeral_3_eq_3 eval_nat_numeral)

theorem C5_compaction_drops_live_key_witness:
  "f_add_int exact_float 100 1 = 101
   \<and> \<not> expired exact_float 100.5 (Some 101)
   \<and> f_truthy exact_float 101
   \<and> f_int exact_float (f_sub exact_float 101 100.5) = Inr 0
   \<and> f_int exact_float 100.5 = Inr 100
   \<and> (\<exists>s1 s2 s3.
        SimpleStore_set exact_float (\<lambda>t. if t < 2 then 100 else 100.5) True ''k'' ''v'' (Some 1)
          (SimpleStore_new 2 None 0) = (Inr (), s1)
      \<and> AsyncLRUCache_get_raw (JStr ''k'') (ss_cache s1) = Some (JStr ''v'', Some 101)
      \<and> SimpleStore_compact_log exact_float (\<lambda>t. if t < 2 then 100 else 100.5) s1 = Inr s2
      \<and> ss_log s2 = Some []
      \<and> fst (SimpleStore_get exact_float (\<lambda>t. if t < 2 then 100 else 100.5) ''k'' s2)
          = Some (JStr ''v'')
      \<and> SimpleStore_initialize exact_float (\<lambda>t. if t < 2 then 100 else 100.5) 2 (ss_log s2) 6
          = Inr (s3, [])
      \<and> AsyncLRUCache_get_raw (JStr ''k'') (ss_cache s3) = None)"
proof -
  let ?clk = "\<lambda>t :: nat. if t < 2 then 100 else 100.5 :: real"
  have e: "f_add_int exact_float 100 1 = 101" by (simp add: exact_float_def)
  have c0: "?clk 0 = 100" "?clk (0 + 2) = 100.5" "?clk (0 + 3) = 100.5" "?clk (0 + 5) = 100.5"
    by simp_all
  have h1: "\<not> expired exact_float 100.5 (Some 101)" by (simp add: expired_def exact_float_def)
  have h2: "f_truthy exact_float 101" by (simp add: exact_float_def)
  have h3: "f_int exact_float (f_sub exact_float 101 100.5) = Inr 0"
    by (simp add: exact_float_def py_int_def)
  have h4: "f_int exact_float 100.5 = Inr 100"
    by (simp add: exact_float_def py_int_def)
  note inst = C5_compaction_drops_live_key[of exact_float ?clk 0 1 100 "''k''" "''v''" 2 6,
      unfolded c0 e, OF h1 h2 h3 h4 h1]
  show ?thesis using e h1 h2 h3 h4 inst by blast
qed

text \<open>
  A line that \<open>json.loads\<close> rejects is skipped by \<open>_recover\<close>: the store recovered from a
  log is the store recovered from the log without these lines.
\<close>

lemma recover_line_warned:
  "recover_line F clk l (s, w)
   = (case recover_line F clk l (s, []) of Inl e \<Rightarrow> Inl e | Inr (s', x) \<Rightarrow> Inr (s', w @ x))"
  by (simp add: recover_line_def Let_def cache_put_def cache_delete_def
      split: wal_line.splits sum.splits option.splits prod.splits)

lemma recover_line_undecodable:
  "recover_line F clk Undecodable (s, w) = Inr (s, w @ [Undecodable])"
  by (simp add: recover_line_def)

lemma recover_line_store:
  "map_sum id fst (recover_line F clk l (s, w)) = map_sum id fst (recover_line F clk l (s, w'))"
  by (subst recover_line_warned, subst (2) recover_line_warned)
    (simp split: sum.splits prod.splits)

lemma recover_wal_store:
  "map_sum id fst (recover_wal F clk ls (s, w)) = map_sum id fst (recover_wal F clk ls (s, w'))"
proof (induction ls arbitrary: s w w')
  case Nil
  then show ?case by simp
next
  case (Cons l ls)
  show ?case
  proof (cases "recover_line F clk l (s, w)")
    case (Inl e)
    then have "recover_line F clk l (s, w') = Inl e"
      using recover_line_store[of F clk l s w w'] by (cases "recover_line F clk l (s, w')") auto
    then show ?thesis using Inl by simp
  next
    case (Inr p)
    obtain s1 w1 where p: "p = (s1, w1)" by (cases p)
    obtain w1' where "recover_line F clk l (s, w') = Inr (s1, w1')"
      using recover_line_store[of F clk l s w w'] Inr p
      by (cases "recover_line F clk l (s, w')") auto
    then show ?thesis using Inr p Cons.IH[of s1 w1 w1'] by simp
  qed
qed

lemma recover_wal_skips_undecodable:
  "map_sum id fst (recover_wal F clk ls (s, w))
   = map_sum id fst (recover_wal F clk (filter (\<lambda>l. l \<noteq> Undecodable) ls) (s, w))"
proof (induction ls arbitrary: s w)
  case Nil
  then show ?case by simp
next
  case (Cons l ls)
  show ?case
  proof (cases "l = Undecodable")
    case True
    have "map_sum id fst (recover_wal F clk (l # ls) (s, w))
          = map_sum id fst (recover_wal F clk ls (s, w @ [Undecodable]))"
      using True by (simp add: recover_line_undecodable)
    also have "\<dots> = map_sum id fst (recover_wal F clk ls (s, w))" by (rule recover_wal_store)
    finally have eq: "map_sum id fst (recover_wal F clk (l # ls) (s, w))
                      = map_sum id fst (recover_wal F clk ls (s, w))" .
    have b: "filter (\<lambda>l. l \<noteq> Undecodable) (l # ls) = filter (\<lambda>l. l \<noteq> Undecodable) ls"
      using True by simp
    show ?thesis unfolding b eq by (rule Cons.IH)
  next
    case False
    then show ?thesis using Cons.IH by (auto split: sum.splits)
  qed
qed

lemma simple_set_failed_append:
  "\<exists>s'. SimpleStore_set F clk False k v ttl s = (Inl OSError, s')
        \<and> ss_log s' = ss_log s
        \<and> AsyncLRUCache_get_raw (JStr k) (ss_cache s')
            = Some (JStr v, map_option (\<lambda>n. f_add_int F (clk (ss_ticks s)) n) ttl)"
  by (cases ttl)
    (simp_all add: SimpleStore_set_def SimpleStore_log_operation_def cache_put_def
      AsyncLRUCache_put_def AsyncLRUCache_get_raw_def filter_key_absent Let_def)

lemma simple_delete_failed_append:
  "if JStr k \<in> fst ` set (a_entries (ss_cache s))
   then (\<exists>s'. SimpleStore_delete clk False k s = (Inl OSError, s')
            \<and> ss_log s' = ss_log s
            \<and> AsyncLRUCache_get_raw (JStr k) (ss_cache s') = None)
   else (\<exists>s'. SimpleStore_delete clk False k s = (Inr False, s') \<and> ss_log s' = ss_log s)"
  by (simp add: SimpleStore_delete_def SimpleStore_log_operation_def cache_delete_def
      AsyncLRUCache_delete_def AsyncLRUCache_get_raw_def filter_key_absent)

text \<open>
  Claim C7.  When the log file cannot be opened for appending, \<open>set(key, value)\<close> on a
  well-formed \<open>KeyValueStore\<close> ends with the \<open>OSError\<close> of \<open>_log\<close>, the log is as it
  was, and the cache keeps the new value: a following \<open>get(key)\<close> returns it.  Likewise
  \<open>delete(key)\<close> of a key that is present ends with the \<open>OSError\<close>, the log is as it
  was, and the key is gone from the cache; a \<open>delete\<close> of an absent key writes nothing
  and so cannot fail this way.  The same holds for \<open>set\<close> and \<open>delete\<close> of
  \<open>SimpleAsyncKeyValueStore\<close>, whose \<open>_log_operation\<close> runs after the cache call.
\<close>

theorem C7_set_delete_not_atomic_with_log:
  assumes "lru_wf (kv_cache s) xs"
  shows "(\<exists>s'. KeyValueStore_set False k v s = (Inl OSError, s')
             \<and> kv_log s' = kv_log s
             \<and> map_of (lru_items (kv_cache s')) k = Some (Some v)
             \<and> fst (KeyValueStore_get k s') = Inr (Some v))
         \<and> (if k \<in> fst ` set (cache (kv_cache s))
             then (\<exists>s'. KeyValueStore_delete False k s = (Inl OSError, s')
                      \<and> kv_log s' = kv_log s
                      \<and> map_of (lru_items (kv_cache s')) k = None
                      \<and> fst (KeyValueStore_get k s') = Inr None)
             else KeyValueStore_delete False k s = (Inr False, s))
         \<and> (\<exists>t'. SimpleStore_set F clk False k v ttl t = (Inl OSError, t')
                \<and> ss_log t' = ss_log t
                \<and> AsyncLRUCache_get_raw (JStr k) (ss_cache t')
                    = Some (JStr v, map_option (\<lambda>n. f_add_int F (clk (ss_ticks t)) n) ttl))
         \<and> (if JStr k \<in> fst ` set (a_entries (ss_cache t))
             then (\<exists>t'. SimpleStore_delete clk False k t = (Inl OSError, t')
                      \<and> ss_log t' = ss_log t
                      \<and> AsyncLRUCache_get_raw (JStr k) (ss_cache t') = None)
             else (\<exists>t'. SimpleStore_delete clk False k t = (Inr False, t') \<and> ss_log t' = ss_log t))"
proof -
  note a = kv_set_delete_failed_append[OF assms, of k v]
  note b = simple_set_failed_append[of F clk k v ttl t]
  note c = simple_delete_failed_append[of k t clk]
  show ?thesis
    by (rule conjI[OF conjunct1[OF a] conjI[OF conjunct2[OF a] conjI[OF b c]]])
qed

theorem C7_set_delete_not_atomic_with_log_witness:
  "lru_wf (kv_cache (snd (KeyValueStore_set True ''a'' ''1'' \<lparr>kv_cache = LRUCache 2, kv_log = None\<rparr>))) [2]
   \<and> (\<exists>s'. KeyValueStore_set False ''b'' ''2''
              (snd (KeyValueStore_set True ''a'' ''1'' \<lparr>kv_cache = LRUCache 2, kv_log = None\<rparr>))
            = (Inl OSError, s')
          \<and> kv_log s' = Some (''SET|a|1'' @ [CHR 0x0A])
          \<and> fst (KeyValueStore_get ''b'' s') = Inr (Some ''2''))
   \<and> (\<exists>s'. KeyValueStore_delete False ''a''
              (snd (KeyValueStore_set True ''a'' ''1'' \<lparr>kv_cache = LRUCache 2, kv_log = None\<rparr>))
            = (Inl OSError, s')
          \<and> kv_log s' = Some (''SET|a|1'' @ [CHR 0x0A])
          \<and> fst (KeyValueStore_get ''a'' s') = Inr None)
   \<and> (\<exists>t'. SimpleStore_set exact_float (\<lambda>_. 100) False ''a'' ''1'' (Some 5) (SimpleStore_new 2 None 0)
            = (Inl OSError, t')
          \<and> ss_log t' = None
          \<and> AsyncLRUCache_get_raw (JStr ''a'') (ss_cache t') = Some (JStr ''1'', Some 105))"
proof -
  let ?s = "snd (KeyValueStore_set True ''a'' ''1'' \<lparr>kv_cache = LRUCache 2, kv_log = None\<rparr>)"
  have w: "lru_wf (kv_cache ?s) [2]" by code_simp
  have c: "cache (kv_cache ?s) = [(''a'', 2)]" "kv_log ?s = Some (''SET|a|1'' @ [CHR 0x0A])"
    by code_simp+
  have t: "ss_log (SimpleStore_new 2 None 0 :: real simple_store) = None"
    "ss_ticks (SimpleStore_new 2 None 0 :: real simple_store) = 0"
    "f_add_int exact_float 100 5 = 105"
    by (simp_all add: SimpleStore_new_def exact_float_def)
  note b = C7_set_delete_not_atomic_with_log[OF w, of "''b''" "''2''" exact_float "\<lambda>_. 100" "Some 5" "SimpleStore_new 2 None 0"]
  note a = C7_set_delete_not_atomic_with_log[OF w, of "''a''" "''1''" exact_float "\<lambda>_. 100" "Some 5" "SimpleStore_new 2 None 0"]
  have 1: "\<exists>s'. KeyValueStore_set False ''b'' ''2'' ?s = (Inl OSError, s')
          \<and> kv_log s' = Some (''SET|a|1'' @ [CHR 0x0A])
          \<and> fst (KeyValueStore_get ''b'' s') = Inr (Some ''2'')"
    using b[THEN conjunct1] unfolding c by auto
  have 2: "\<exists>s'. KeyValueStore_delete False ''a'' ?s = (Inl OSError, s')
          \<and> kv_log s' = Some (''SET|a|1'' @ [CHR 0x0A])
          \<and> fst (KeyValueStore_get ''a'' s') = Inr None"
    using a[THEN conjunct2, THEN conjunct1] unfolding c by auto
  have 3: "\<exists>t'. SimpleStore_set exact_float (\<lambda>_. 100) False ''a'' ''1'' (Some 5) (SimpleStore_new 2 None 0)
            = (Inl OSError, t')
          \<and> ss_log t' = None
          \<and> AsyncLRUCache_get_raw (JStr ''a'') (ss_cache t') = Some (JStr ''1'', Some 105)"
    using a[THEN conjunct2, THEN conjunct2, THEN conjunct1] unfolding t(1,2) by (auto simp add: t(3))
  show ?thesis using w 1 2 3 by blast
qed

subsection \<open>The capacity invariant\<close>

text \<open>
  Claim C3.  A cache constructed with a capacity \<open>cap > 0\<close> serves every sequence of
  \<open>put\<close>, \<open>get\<close> and \<open>delete\<close> calls without raising, and in the state it reaches the
  dictionary has at most \<open>cap\<close> entries.  The nodes found by walking the list from the
  head sentinel along \<open>next\<close> are the nodes found by walking from the tail sentinel along
  \<open>prev\<close>; there are as many of them as dictionary entries, they are pairwise distinct,
  they are exactly the nodes the dictionary holds, no key and no node occurs in two
  entries, and the node of each entry carries the entry's key.  As the sequence is
  arbitrary, this holds after each of its operations.
\<close>

theorem C3_capacity_invariant:
  assumes "0 < cap"
  shows "\<exists>c xs. lru_run (ops :: ('k, 'v) lru_op list) (LRUCache cap) = Inr c
            \<and> int (length (cache c)) \<le> cap
            \<and> list_nodes c = Some xs \<and> list_nodes_backwards c = Some xs
            \<and> length xs = length (cache c)
            \<and> distinct xs \<and> distinct (map fst (cache c)) \<and> distinct (map snd (cache c))
            \<and> set (map snd (cache c)) = set xs
            \<and> list_all (\<lambda>(k, n). node_key (heap c n) = Some k) (cache c)"
proof -
  have c0: "capacity (LRUCache cap :: ('k, 'v) lru_cache) = cap"
    "cache (LRUCache cap :: ('k, 'v) lru_cache) = []"
    by (simp_all add: LRUCache_def LRUCache_init_def)
  have p1: "1 \<le> capacity (LRUCache cap :: ('k, 'v) lru_cache)"
    and p2: "int (length (cache (LRUCache cap :: ('k, 'v) lru_cache))) \<le> capacity (LRUCache cap :: ('k, 'v) lru_cache)"
    using assms c0 by simp_all
  obtain c xs where r: "lru_run ops (LRUCache cap) = Inr c" "lru_wf c xs"
    "capacity c = capacity (LRUCache cap :: ('k, 'v) lru_cache)" "int (length (cache c)) \<le> capacity c"
    using lru_run_wf[OF lru_wf_init p1 p2, of ops] by blast
  have "distinct xs" "distinct (map fst (cache c))" "set (map snd (cache c)) = set xs"
    "list_all (\<lambda>(k, n). node_key (heap c n) = Some k) (cache c)"
    using r(2) by (simp_all add: lru_wf_def)
  then show ?thesis
    using r c0 lru_wf_list_nodes[OF r(2)] lru_wf_length[OF r(2)] lru_wf_distinct_nodes[OF r(2)]
    by auto
qed

theorem C3_capacity_invariant_witness:
  "(0::int) < 2 \<and>
   (\<exists>c xs. lru_run [Put ''a'' ''1'', Put ''b'' ''2'', Lookup ''a'', Put ''c'' ''3'', Remove ''b'']
              (LRUCache 2) = Inr c
            \<and> int (length (cache c)) \<le> 2
            \<and> list_nodes c = Some xs \<and> list_nodes_backwards c = Some xs
            \<and> length xs = length (cache c)
            \<and> distinct xs \<and> distinct (map fst (cache c)) \<and> distinct (map snd (cache c))
            \<and> set (map snd (cache c)) = set xs
            \<and> list_all (\<lambda>(k, n). node_key (heap c n) = Some k) (cache c))"
  using C3_capacity_invariant[of 2 "[Put ''a'' ''1'', Put ''b'' ''2'', Lookup ''a'', Put ''c'' ''3'', Remove ''b'']"]
  by simp

subsection \<open>The concrete scenario and the degenerate capacity\<close>

text \<open>
  Claim C6.  A store of capacity 2 that starts without a log file serves
  \<open>set("a","1")\<close>, \<open>set("b","2")\<close>, \<open>set("c","3")\<close>, \<open>get("a")\<close>, \<open>get("b")\<close>,
  \<open>get("c")\<close>: the three reads return \<open>None\<close> (the key \<open>a\<close> was evicted as least
  recently used), \<open>"2"\<close> and \<open>"3"\<close>, the cache holds exactly \<open>b\<close> and \<open>c\<close>, and a new
  store started on the log file that the first one wrote recovers exactly the same two
  keys with the same values.
\<close>

theorem C6_concrete_scenario:
  "case kv_session 2 None
          [Set ''a'' ''1'', Set ''b'' ''2'', Set ''c'' ''3'', Get ''a'', Get ''b'', Get ''c''] of
     Inl e \<Rightarrow> False
   | Inr (rs, s) \<Rightarrow>
       rs = [Inr SetDone, Inr SetDone, Inr SetDone,
             Inr (GetValue None), Inr (GetValue (Some ''2'')), Inr (GetValue (Some ''3''))] \<and>
       lru_items (kv_cache s) = [(''b'', Some ''2''), (''c'', Some ''3'')] \<and>
       (case kv_session 2 (kv_log s) [] of
          Inl e \<Rightarrow> False
        | Inr (rs', s') \<Rightarrow> lru_items (kv_cache s') = [(''b'', Some ''2''), (''c'', Some ''3'')])"
  by code_simp

text \<open>
  Claim C10.  In a cache constructed with a capacity of zero or less, \<open>put\<close> of a key
  finds \<open>len(self.cache) >= self.capacity\<close> true and asks for an eviction;
  \<open>remove_from_end\<close> on the empty list returns \<open>None\<close> and leaves the heap alone, no
  dictionary entry is removed, and the new node is inserted all the same: the
  dictionary then has one entry, which is more than the capacity.
\<close>

theorem C10_nonpositive_capacity_overflows:
  assumes "cap \<le> 0"
  shows "remove_from_end (dll (LRUCache cap :: ('k, 'v) lru_cache)) (heap (LRUCache cap :: ('k, 'v) lru_cache))
           = Inr (None, heap (LRUCache cap :: ('k, 'v) lru_cache))
         \<and> (\<exists>c. LRUCache_put (k :: 'k) (v :: 'v) (LRUCache cap) = Inr c
                \<and> lru_items c = [(k, Some v)]
                \<and> length (cache c) = 1
                \<and> int (length (cache c)) > capacity c)"
  using assms
  by (simp add: LRUCache_put_def LRUCache_def LRUCache_init_def remove_from_end_def
      alloc_def add_to_front_def Node_def empty_heap_def lru_items_def)

theorem C10_nonpositive_capacity_overflows_witness:
  "(0::int) \<le> 0
   \<and> remove_from_end (dll (LRUCache 0 :: (string, string) lru_cache))
         (heap (LRUCache 0 :: (string, string) lru_cache))
       = Inr (None, heap (LRUCache 0 :: (string, string) lru_cache))
   \<and> (\<exists>c. LRUCache_put ''a'' ''1'' (LRUCache 0) = Inr c
          \<and> lru_items c = [(''a'', Some ''1'')]
          \<and> length (cache c) = 1
          \<and> int (length (cache c)) > capacity c)"
  using C10_nonpositive_capacity_overflows [of 0 "''a''" "''1''"] by simp

end
